theory Spec2Isabelle
  imports Complex_Main
begin

section \<open>JavaScript array helpers\<close>

text \<open>
  Indices are JavaScript numbers that only ever hold integers here, so they are \<open>int\<close>:
  \<open>prev - 1\<close> can reach \<open>-1\<close> and \<open>findIndex\<close> returns \<open>-1\<close> for "not found".
  Reading an array outside its range gives \<open>undefined\<close>, modelled as \<open>None\<close>.
\<close>

definition js_index :: "'a list \<Rightarrow> int \<Rightarrow> 'a option" where
  "js_index xs i = (if 0 \<le> i \<and> i < int (length xs) then Some (xs ! nat i) else None)"

fun findIndex_from :: "('a \<Rightarrow> bool) \<Rightarrow> int \<Rightarrow> 'a list \<Rightarrow> int" where
  "findIndex_from P i [] = - 1"
| "findIndex_from P i (x # xs) = (if P x then i else findIndex_from P (i + 1) xs)"

definition findIndex :: "('a \<Rightarrow> bool) \<Rightarrow> 'a list \<Rightarrow> int" where
  "findIndex P xs = findIndex_from P 0 xs"

definition findLastIndex :: "('a \<Rightarrow> bool) \<Rightarrow> 'a list \<Rightarrow> int" where
  "findLastIndex P xs =
     (let r = findIndex P (rev xs) in if r = - 1 then - 1 else int (length xs) - 1 - r)"

section \<open>Data model of WheelSelect.tsx\<close>

text \<open>
  \<open>WheelSelectOption\<close>: \<open>disabled\<close> is an optional boolean, \<open>None\<close> being \<open>undefined\<close>.
  The opaque \<open>data\<close> bag is never read by the component and is left out.
\<close>

record wheel_option =
  o_value :: string
  o_label :: string
  o_disabled :: "bool option"

text \<open>Truthiness of \<open>option.disabled\<close>.\<close>

definition is_disabled :: "wheel_option \<Rightarrow> bool" where
  "is_disabled opt = (o_disabled opt = Some True)"

text \<open>\<open>options[i]?.disabled\<close> as a condition: false when the index is out of range.\<close>

definition disabled_at :: "wheel_option list \<Rightarrow> int \<Rightarrow> bool" where
  "disabled_at opts i = (case js_index opts i of None \<Rightarrow> False | Some opt \<Rightarrow> is_disabled opt)"

text \<open>The merged \<open>behavior\<close> configuration (\<open>portalTarget\<close> only selects the render target).\<close>

record behavior =
  closeOnOutsideClick :: bool
  closeOnEscape :: bool
  closeOnSelect :: bool
  scrollDebounceMs :: nat
  keyboardNavigation :: bool
  focusTriggerOnClose :: bool

definition defaultBehavior :: behavior where
  "defaultBehavior =
     \<lparr> closeOnOutsideClick = True, closeOnEscape = True, closeOnSelect = True,
       scrollDebounceMs = 50, keyboardNavigation = True, focusTriggerOnClose = True \<rparr>"

text \<open>
  \<open>WheelSelectCallbacks\<close>: every callback is optional and is called as
  \<open>callbacks?.onOpen?.()\<close>; a field is \<open>True\<close> when the host supplied that callback.
\<close>

record callbacks =
  cb_onOpen :: bool
  cb_onClose :: bool
  cb_onChange :: bool
  cb_onActiveChange :: bool
  cb_onKeyDown :: bool

record props =
  options :: "wheel_option list"
  p_value :: string
  p_disabled :: bool
  behavior :: behavior
  callbacks :: callbacks

datatype key = Escape | ArrowUp | ArrowDown | Enter | Space | Home | End | OtherKey

text \<open>
  Everything the component does to the outside world is recorded in a trace:
  calls of the host's callbacks, focus changes, \<open>scrollIntoView\<close> requests and
  \<open>preventDefault\<close>/\<open>stopPropagation\<close> on the event. \<open>TimeoutFired\<close> is written
  by the timer queue when it runs a callback.
\<close>

datatype event =
    OnChange string
  | CallbackOnChange string wheel_option
  | CallbackOnOpen
  | CallbackOnClose
  | CallbackOnActiveChange int wheel_option
  | CallbackOnKeyDown key
  | FocusTrigger
  | ScrollIntoView int
  | PreventDefault
  | StopPropagation
  | TimeoutFired nat

subsection \<open>DOM elements\<close>

record DOMRect =
  rect_left :: real
  rect_top :: real
  rect_height :: real

text \<open>
  The wheel is the scroll container: \<open>wheelTop\<close> is the viewport position of its top edge,
  and \<open>scrollTop\<close> is the property the open-time effect assigns. An item is a child of the
  wheel, at \<open>offsetTop\<close> inside the scrolled content.
\<close>

record wheel_element =
  wheelTop :: real
  wheelClientHeight :: real
  scrollTop :: real

record item_element =
  offsetTop :: real
  clientHeight :: real

text \<open>
  Layout model for \<open>getBoundingClientRect\<close>: boxes have no border and no transform, so
  the wheel's rectangle is its client box, and an item's rectangle is its box moved up by
  the wheel's scroll offset. Lengths are exact reals.
\<close>

definition wheel_getBoundingClientRect :: "wheel_element \<Rightarrow> DOMRect" where
  "wheel_getBoundingClientRect wheel =
     \<lparr> rect_left = 0, rect_top = wheelTop wheel, rect_height = wheelClientHeight wheel \<rparr>"

definition item_getBoundingClientRect :: "wheel_element \<Rightarrow> item_element \<Rightarrow> DOMRect" where
  "item_getBoundingClientRect wheel item =
     \<lparr> rect_left = 0, rect_top = wheelTop wheel + offsetTop item - scrollTop wheel,
       rect_height = clientHeight item \<rparr>"

subsection \<open>Component state and its environment\<close>

text \<open>
  The \<open>useState\<close> cells and the \<open>useRef\<close> cells of \<open>WheelSelectInner\<close>, followed by
  the part of the browser the handlers talk to: the clock and the pending \<open>setTimeout\<close>
  timers (identifier, due time, and the props captured by the scheduled closure), the
  queued \<open>requestAnimationFrame\<close> callbacks (each captured its target index), and the
  trace. A \<open>None\<close> ref is \<open>null\<close>.
\<close>

record state =
  isOpen :: bool
  activeIndex :: int
  triggerRect :: "DOMRect option"
  triggerRef :: "DOMRect option"
  selectRef :: "string option"
  wheelRef :: "wheel_element option"
  itemRefs :: "item_element option list"
  initialScrollIndexRef :: "int option"
  scrollTimeoutRef :: "nat option"
  isScrollingRef :: bool
  now :: nat
  nextTimerId :: nat
  timers :: "(nat \<times> nat \<times> props) list"
  frames :: "int list"
  trace :: "event list"

definition emit :: "event \<Rightarrow> state \<Rightarrow> state" where
  "emit e s = s\<lparr>trace := trace s @ [e]\<rparr>"

text \<open>\<open>triggerRef.current?.focus()\<close>\<close>

definition focusTrigger :: "state \<Rightarrow> state" where
  "focusTrigger s = (case triggerRef s of None \<Rightarrow> s | Some _ \<Rightarrow> emit FocusTrigger s)"

text \<open>\<open>itemRefs.current[i]?.scrollIntoView({ block: 'center', behavior: 'smooth' })\<close>\<close>

definition item_at :: "state \<Rightarrow> int \<Rightarrow> item_element option" where
  "item_at s i = (case js_index (itemRefs s) i of None \<Rightarrow> None | Some r \<Rightarrow> r)"

definition scrollIntoView :: "int \<Rightarrow> state \<Rightarrow> state" where
  "scrollIntoView i s = (case item_at s i of None \<Rightarrow> s | Some _ \<Rightarrow> emit (ScrollIntoView i) s)"

section \<open>Opening, closing, committing\<close>

definition openPicker :: "props \<Rightarrow> state \<Rightarrow> state" where
  "openPicker p s =
     (if p_disabled p then s
      else
        let s1 = (case triggerRef s of None \<Rightarrow> s | Some r \<Rightarrow> s\<lparr>triggerRect := Some r\<rparr>);
            idx = findIndex (\<lambda>x. o_value x = p_value p) (options p);
            targetIndex = (if idx \<noteq> - 1 then idx else 0);
            s2 = s1\<lparr>initialScrollIndexRef := Some targetIndex\<rparr>;
            s3 = s2\<lparr>activeIndex := targetIndex\<rparr>;
            s4 = s3\<lparr>isOpen := True\<rparr>
        in if cb_onOpen (callbacks p) then emit CallbackOnOpen s4 else s4)"

definition closePicker :: "props \<Rightarrow> state \<Rightarrow> state" where
  "closePicker p s =
     (let s1 = s\<lparr>isOpen := False\<rparr>;
          s2 = (if focusTriggerOnClose (behavior p) then focusTrigger s1 else s1)
      in if cb_onClose (callbacks p) then emit CallbackOnClose s2 else s2)"

definition commitSelection :: "props \<Rightarrow> string \<Rightarrow> state \<Rightarrow> state" where
  "commitSelection p newValue s =
     (case find (\<lambda>x. o_value x = newValue) (options p) of
        None \<Rightarrow> s
      | Some opt \<Rightarrow>
          if is_disabled opt then s
          else
            let s1 = emit (OnChange newValue) s;
                s2 = (if cb_onChange (callbacks p) then emit (CallbackOnChange newValue opt) s1 else s1);
                s3 = (case selectRef s2 of None \<Rightarrow> s2 | Some _ \<Rightarrow> s2\<lparr>selectRef := Some newValue\<rparr>)
            in if closeOnSelect (behavior p)
               then
                 let s4 = s3\<lparr>isOpen := False\<rparr>;
                     s5 = (if focusTriggerOnClose (behavior p) then focusTrigger s4 else s4)
                 in if cb_onClose (callbacks p) then emit CallbackOnClose s5 else s5
               else s3)"

text \<open>The imperative handle: \<open>scrollToIndex\<close> and \<open>toggle\<close>.\<close>

definition scrollToIndex :: "int \<Rightarrow> state \<Rightarrow> state" where
  "scrollToIndex index s = scrollIntoView index s"

definition toggle :: "props \<Rightarrow> state \<Rightarrow> state" where
  "toggle p s = (if isOpen s then closePicker p s else openPicker p s)"

section \<open>Keyboard navigation\<close>

text \<open>
  The two \<open>while\<close> loops that skip disabled options. Each stops at the first index
  that is out of range or whose option is not disabled.
\<close>

function skipDisabledUp :: "wheel_option list \<Rightarrow> int \<Rightarrow> int" where
  "skipDisabledUp opts newIndex =
     (if newIndex \<ge> 0 \<and> disabled_at opts newIndex then skipDisabledUp opts (newIndex - 1)
      else newIndex)"
  by pat_completeness auto
termination
  by (relation "measure (\<lambda>(opts, newIndex). nat (newIndex + 1))") auto

function skipDisabledDown :: "wheel_option list \<Rightarrow> int \<Rightarrow> int" where
  "skipDisabledDown opts newIndex =
     (if newIndex < int (length opts) \<and> disabled_at opts newIndex
      then skipDisabledDown opts (newIndex + 1)
      else newIndex)"
  by pat_completeness auto
termination
  by (relation "measure (\<lambda>(opts, newIndex). nat (int (length opts) - newIndex))") auto

declare skipDisabledUp.simps [simp del]
declare skipDisabledDown.simps [simp del]

text \<open>
  The state updaters passed to \<open>setActiveIndex\<close> in the \<open>ArrowUp\<close> and
  \<open>ArrowDown\<close> cases; returning \<open>prev\<close> leaves the state as it is.
\<close>

definition arrowUp :: "props \<Rightarrow> state \<Rightarrow> state" where
  "arrowUp p s =
     (let prev = activeIndex s;
          newIndex = skipDisabledUp (options p) (prev - 1)
      in if newIndex < 0 then s
         else (scrollIntoView newIndex s)\<lparr>activeIndex := newIndex\<rparr>)"

definition arrowDown :: "props \<Rightarrow> state \<Rightarrow> state" where
  "arrowDown p s =
     (let prev = activeIndex s;
          newIndex = skipDisabledDown (options p) (prev + 1)
      in if newIndex \<ge> int (length (options p)) then s
         else (scrollIntoView newIndex s)\<lparr>activeIndex := newIndex\<rparr>)"

definition handlePickerKeyDown :: "props \<Rightarrow> key \<Rightarrow> state \<Rightarrow> state" where
  "handlePickerKeyDown p k s =
     (if \<not> keyboardNavigation (behavior p) then s
      else
        let s0 = (if cb_onKeyDown (callbacks p) then emit (CallbackOnKeyDown k) s else s)
        in case k of
             Escape \<Rightarrow>
               if closeOnEscape (behavior p) then closePicker p (emit PreventDefault s0) else s0
           | ArrowUp \<Rightarrow> arrowUp p (emit PreventDefault s0)
           | ArrowDown \<Rightarrow> arrowDown p (emit PreventDefault s0)
           | Enter \<Rightarrow>
               (let s1 = emit PreventDefault s0
                in case js_index (options p) (activeIndex s1) of
                     None \<Rightarrow> s1
                   | Some opt \<Rightarrow>
                       if \<not> is_disabled opt then commitSelection p (o_value opt) s1 else s1)
           | Space \<Rightarrow>
               (let s1 = emit PreventDefault s0
                in case js_index (options p) (activeIndex s1) of
                     None \<Rightarrow> s1
                   | Some opt \<Rightarrow>
                       if \<not> is_disabled opt then commitSelection p (o_value opt) s1 else s1)
           | Home \<Rightarrow>
               (let s1 = emit PreventDefault s0;
                    firstEnabled = findIndex (\<lambda>x. \<not> is_disabled x) (options p)
                in if firstEnabled \<noteq> - 1
                   then scrollIntoView firstEnabled (s1\<lparr>activeIndex := firstEnabled\<rparr>)
                   else s1)
           | End \<Rightarrow>
               (let s1 = emit PreventDefault s0;
                    lastEnabled = findLastIndex (\<lambda>x. \<not> is_disabled x) (options p)
                in if lastEnabled \<noteq> - 1
                   then scrollIntoView lastEnabled (s1\<lparr>activeIndex := lastEnabled\<rparr>)
                   else s1)
           | OtherKey \<Rightarrow> s0)"

section \<open>Active index from the scroll position\<close>

text \<open>
  \<open>closestDistance\<close> starts at \<open>Infinity\<close>, which is \<open>None\<close> here: every measured
  distance is smaller than it.
\<close>

definition less_than_closest :: "real \<Rightarrow> real option \<Rightarrow> bool" where
  "less_than_closest distance closestDistance =
     (case closestDistance of None \<Rightarrow> True | Some c \<Rightarrow> distance < c)"

definition itemCenter :: "wheel_element \<Rightarrow> item_element \<Rightarrow> real" where
  "itemCenter wheel item =
     (let itemRect = item_getBoundingClientRect wheel item
      in rect_top itemRect + rect_height itemRect / 2)"

definition wheelCenter :: "wheel_element \<Rightarrow> real" where
  "wheelCenter wheel =
     (let wheelRect = wheel_getBoundingClientRect wheel
      in rect_top wheelRect + rect_height wheelRect / 2)"

text \<open>
  The body of \<open>itemRefs.current.forEach((item, index) => ...)\<close>, with the two
  variables it assigns as the accumulator; a \<open>null\<close> item is skipped.
\<close>

fun forEach_item :: "wheel_element \<Rightarrow> item_element option list \<Rightarrow> int \<Rightarrow> int \<times> real option
    \<Rightarrow> int \<times> real option" where
  "forEach_item wheel [] index acc = acc"
| "forEach_item wheel (None # rest) index acc = forEach_item wheel rest (index + 1) acc"
| "forEach_item wheel (Some item # rest) index (closestIndex, closestDistance) =
     (let distance = \<bar>itemCenter wheel item - wheelCenter wheel\<bar>
      in if less_than_closest distance closestDistance
         then forEach_item wheel rest (index + 1) (index, Some distance)
         else forEach_item wheel rest (index + 1) (closestIndex, closestDistance))"

definition calculateActiveFromScroll :: "props \<Rightarrow> state \<Rightarrow> state" where
  "calculateActiveFromScroll p s =
     (case wheelRef s of
        None \<Rightarrow> s
      | Some wheel \<Rightarrow>
          let closestIndex = fst (forEach_item wheel (itemRefs s) 0 (0, None));
              s1 = s\<lparr>activeIndex := closestIndex\<rparr>
          in case js_index (options p) closestIndex of
               None \<Rightarrow> s1
             | Some opt \<Rightarrow>
                 if cb_onActiveChange (callbacks p)
                 then emit (CallbackOnActiveChange closestIndex opt) s1 else s1)"

section \<open>Timers and the scroll debounce\<close>

text \<open>
  \<open>setTimeout\<close> hands out a fresh identifier and queues the timer; \<open>clearTimeout\<close>
  removes it from the queue (and does nothing for an identifier that is not queued).
  Identifiers are positive, so a stored identifier is truthy exactly when it is \<open>Some\<close>.
  Times are whole milliseconds.
\<close>

definition setTimeout :: "props \<Rightarrow> nat \<Rightarrow> state \<Rightarrow> nat \<times> state" where
  "setTimeout p delay s =
     (nextTimerId s,
      s\<lparr>timers := timers s @ [(nextTimerId s, now s + delay, p)],
        nextTimerId := nextTimerId s + 1\<rparr>)"

definition clearTimeout :: "nat \<Rightarrow> state \<Rightarrow> state" where
  "clearTimeout tid s = s\<lparr>timers := filter (\<lambda>t. fst t \<noteq> tid) (timers s)\<rparr>"

definition handleScroll :: "props \<Rightarrow> state \<Rightarrow> state" where
  "handleScroll p s =
     (let s1 = s\<lparr>isScrollingRef := True\<rparr>;
          s2 = (case scrollTimeoutRef s1 of None \<Rightarrow> s1 | Some tid \<Rightarrow> clearTimeout tid s1);
          (tid, s3) = setTimeout p (scrollDebounceMs (behavior p)) s2
      in s3\<lparr>scrollTimeoutRef := Some tid\<rparr>)"

text \<open>The closure given to \<open>setTimeout\<close> by \<open>handleScroll\<close>.\<close>

definition timeoutCallback :: "props \<Rightarrow> state \<Rightarrow> state" where
  "timeoutCallback p s = calculateActiveFromScroll p (s\<lparr>isScrollingRef := False\<rparr>)"

text \<open>
  The timer queue of the event loop. \<open>advance dt\<close> lets \<open>dt\<close> milliseconds pass: the
  timers that are due by then run in the order of their due times (the order of
  scheduling among equal ones), each only if it is still queued when its turn comes;
  a timer leaves the queue when it runs.
\<close>

fun run_due :: "(nat \<times> nat \<times> props) list \<Rightarrow> state \<Rightarrow> state" where
  "run_due [] s = s"
| "run_due ((tid, due, p) # rest) s =
     (if tid \<in> set (map fst (timers s))
      then run_due rest
             (timeoutCallback p
                (emit (TimeoutFired tid)
                   (s\<lparr>timers := filter (\<lambda>t. fst t \<noteq> tid) (timers s), now := max (now s) due\<rparr>)))
      else run_due rest s)"

definition advance :: "nat \<Rightarrow> state \<Rightarrow> state" where
  "advance dt s =
     (let t = now s + dt;
          due = sort_key (\<lambda>x. fst (snd x)) (filter (\<lambda>x. fst (snd x) \<le> t) (timers s));
          s1 = run_due due s
      in s1\<lparr>now := t\<rparr>)"

text \<open>
  A scroll event: the browser has moved the wheel to a new scroll offset and calls the
  \<open>onScroll\<close> handler. A sequence of scroll events, each after a pause.
\<close>

definition scrollEvent :: "props \<Rightarrow> real \<Rightarrow> state \<Rightarrow> state" where
  "scrollEvent p pos s =
     handleScroll p (s\<lparr>wheelRef := map_option (\<lambda>w. w\<lparr>scrollTop := pos\<rparr>) (wheelRef s)\<rparr>)"

fun scrollEvents :: "props \<Rightarrow> (nat \<times> real) list \<Rightarrow> state \<Rightarrow> state" where
  "scrollEvents p [] s = s"
| "scrollEvents p ((dt, pos) # rest) s = scrollEvents p rest (scrollEvent p pos (advance dt s))"

text \<open>The cleanup function of the mount effect, run when the component unmounts.\<close>

definition unmountCleanup :: "state \<Rightarrow> state" where
  "unmountCleanup s = (case scrollTimeoutRef s of None \<Rightarrow> s | Some tid \<Rightarrow> clearTimeout tid s)"

section \<open>Clicks\<close>

definition handleItemClick :: "props \<Rightarrow> int \<Rightarrow> state \<Rightarrow> state" where
  "handleItemClick p index s =
     (let s1 = emit StopPropagation (emit PreventDefault s);
          s2 = (case scrollTimeoutRef s1 of
                  None \<Rightarrow> s1
                | Some tid \<Rightarrow> (clearTimeout tid s1)\<lparr>scrollTimeoutRef := None\<rparr>)
      in case js_index (options p) index of
           None \<Rightarrow> s2
         | Some opt \<Rightarrow> if \<not> is_disabled opt then commitSelection p (o_value opt) s2 else s2)"

definition handleBackdropClick :: "props \<Rightarrow> bool \<Rightarrow> state \<Rightarrow> state" where
  "handleBackdropClick p targetIsCurrentTarget s =
     (if closeOnOutsideClick (behavior p) \<and> targetIsCurrentTarget then closePicker p s else s)"

section \<open>Centering the selected item when the picker opens\<close>

text \<open>
  The effect on \<open>isOpen\<close> takes the index out of \<open>initialScrollIndexRef\<close> and asks for
  an animation frame; the frame's callback assigns \<open>wheel.scrollTop\<close>. The assignment is
  taken as it is written (the browser's clamping of scroll offsets is not modelled).
\<close>

definition frameCallback :: "int \<Rightarrow> state \<Rightarrow> state" where
  "frameCallback targetIndex s =
     (case wheelRef s of
        None \<Rightarrow> s
      | Some wheel \<Rightarrow>
          (case item_at s targetIndex of
             None \<Rightarrow> s
           | Some item \<Rightarrow>
               let wheelHeight = wheelClientHeight wheel;
                   itemHeight = clientHeight item;
                   itemTop = offsetTop item;
                   scrollTarget = itemTop - (wheelHeight / 2) + (itemHeight / 2)
               in s\<lparr>wheelRef := Some (wheel\<lparr>scrollTop := scrollTarget\<rparr>)\<rparr>))"

definition openScrollEffect :: "state \<Rightarrow> state" where
  "openScrollEffect s =
     (if isOpen s
      then (case initialScrollIndexRef s of
              None \<Rightarrow> s
            | Some targetIndex \<Rightarrow>
                s\<lparr>initialScrollIndexRef := None, frames := frames s @ [targetIndex]\<rparr>)
      else s)"

definition runAnimationFrame :: "state \<Rightarrow> state" where
  "runAnimationFrame s = fold frameCallback (frames s) (s\<lparr>frames := []\<rparr>)"

section \<open>Vocabulary of the properties\<close>

text \<open>
  The state of the \<open>forEach\<close> loop after the items \<open>xs\<close>: nothing chosen while no item
  was rendered; otherwise the chosen index holds a rendered item whose distance to the
  wheel's center is minimal among the rendered items seen, and strictly smaller than that
  of every rendered item before it.
\<close>

definition closest_so_far :: "wheel_element \<Rightarrow> item_element option list \<Rightarrow> int \<times> real option \<Rightarrow> bool" where
  "closest_so_far w xs acc =
     (if \<forall>x\<in>set xs. x = None then acc = (0, None)
      else 0 \<le> fst acc \<and> fst acc < int (length xs) \<and>
           (\<exists>it. xs ! nat (fst acc) = Some it \<and>
                 snd acc = Some \<bar>itemCenter w it - wheelCenter w\<bar> \<and>
                 (\<forall>j<length xs. \<forall>it'. xs ! j = Some it' \<longrightarrow>
                    \<bar>itemCenter w it - wheelCenter w\<bar> \<le> \<bar>itemCenter w it' - wheelCenter w\<bar> \<and>
                    (j < nat (fst acc) \<longrightarrow>
                       \<bar>itemCenter w it - wheelCenter w\<bar> < \<bar>itemCenter w it' - wheelCenter w\<bar>))))"

text \<open>
  Items laid out one below the other without overlap: each item ends at or before the
  offset where the next one starts.
\<close>

fun stacked :: "item_element list \<Rightarrow> bool" where
  "stacked [] = True"
| "stacked [x] = True"
| "stacked (x # y # rest) = (offsetTop x + clientHeight x \<le> offsetTop y \<and> stacked (y # rest))"

text \<open>
  The debounce timer of the last scroll event is the only timer queued, due one debounce
  delay after that event, and \<open>scrollTimeoutRef\<close> holds its identifier.
\<close>

definition debounce_pending :: "props \<Rightarrow> state \<Rightarrow> bool" where
  "debounce_pending p s =
     (case scrollTimeoutRef s of
        None \<Rightarrow> False
      | Some tid \<Rightarrow> timers s = [(tid, now s + scrollDebounceMs (behavior p), p)])"

section \<open>Configuration merge\<close>

text \<open>
  JavaScript values as far as \<open>mergeDeep\<close> tells them apart: \<open>undefined\<close>,
  \<open>null\<close>, booleans, numbers, strings, arrays, and every other object as the list of
  its enumerable properties. Reading a property of \<open>undefined\<close> or \<open>null\<close>
  throws a \<open>TypeError\<close>.
\<close>

datatype jsval =
    JUndefined
  | JNull
  | JBool bool
  | JNum real
  | JStr string
  | JArr "jsval list"
  | JObj "(string \<times> jsval) list"

datatype js_error = TypeError

text \<open>
  The object spread \<open>{ ...target }\<close> copies the enumerable own properties: those of an
  object, the indexed elements of an array, the indexed characters of a string, and nothing
  for any other value.
\<close>

definition digit_char :: "nat \<Rightarrow> char" where
  "digit_char d = char_of (d + of_char CHR ''0'')"

fun string_of_nat :: "nat \<Rightarrow> string" where
  "string_of_nat n =
     (let last_digit = digit_char (n mod 10)
      in if n div 10 = 0 then [last_digit] else string_of_nat (n div 10) @ [last_digit])"

definition indexed :: "jsval list \<Rightarrow> (string \<times> jsval) list" where
  "indexed xs = map (\<lambda>(i, x). (string_of_nat i, x)) (enumerate 0 xs)"

fun spread :: "jsval \<Rightarrow> (string \<times> jsval) list" where
  "spread (JObj kvs) = kvs"
| "spread (JArr xs) = indexed xs"
| "spread (JStr cs) = indexed (map (\<lambda>c. JStr [c]) cs)"
| "spread v = []"

text \<open>
  \<open>obj[key]\<close> on an object gives \<open>undefined\<close> for a missing key;
  \<open>target[key]\<close> on any value reads the same properties the spread copies
  (properties inherited from prototypes, such as \<open>length\<close>, are not modelled).
  \<open>result[key] = v\<close> replaces the property or adds it at the end.
\<close>

definition get_own :: "(string \<times> jsval) list \<Rightarrow> string \<Rightarrow> jsval" where
  "get_own kvs k = (case map_of kvs k of None \<Rightarrow> JUndefined | Some v \<Rightarrow> v)"

fun read_prop :: "jsval \<Rightarrow> string \<Rightarrow> js_error + jsval" where
  "read_prop JUndefined k = Inl TypeError"
| "read_prop JNull k = Inl TypeError"
| "read_prop v k = Inr (get_own (spread v) k)"

fun assign :: "string \<Rightarrow> jsval \<Rightarrow> (string \<times> jsval) list \<Rightarrow> (string \<times> jsval) list" where
  "assign k v [] = [(k, v)]"
| "assign k v ((k', v') # rest) = (if k' = k then (k, v) # rest else (k', v') # assign k v rest)"

text \<open>
  \<open>mergeDeep\<close>; \<open>mergeLoop\<close> is its \<open>for (const key in source)\<close> loop over the
  entries of \<open>source\<close> that are still to come, with \<open>result\<close> as built so far.
\<close>

fun mergeDeep :: "jsval \<Rightarrow> (string \<times> jsval) list \<Rightarrow> js_error + (string \<times> jsval) list"
  and mergeLoop :: "jsval \<Rightarrow> (string \<times> jsval) list \<Rightarrow> (string \<times> jsval) list
      \<Rightarrow> js_error + (string \<times> jsval) list" where
  "mergeDeep target source = mergeLoop target source (spread target)"
| "mergeLoop target [] result = Inr result"
| "mergeLoop target ((key, JUndefined) # rest) result = mergeLoop target rest result"
| "mergeLoop target ((key, JObj src) # rest) result =
     (case read_prop target key of
        Inl e \<Rightarrow> Inl e
      | Inr t \<Rightarrow>
          (case mergeDeep t src of
             Inl e \<Rightarrow> Inl e
           | Inr merged \<Rightarrow> mergeLoop target rest (assign key (JObj merged) result)))"
| "mergeLoop target ((key, v) # rest) result = mergeLoop target rest (assign key v result)"

text \<open>
  \<open>toCssValue\<close> takes a number, a string or \<open>undefined\<close>. The conversion of a
  number to text inside the template literal is JavaScript's own and is a parameter here.
\<close>

datatype css_input = CssUndefined | CssNumber real | CssString string

fun toCssValue :: "(real \<Rightarrow> string) \<Rightarrow> css_input \<Rightarrow> string \<Rightarrow> string" where
  "toCssValue numberToString CssUndefined defaultValue = defaultValue"
| "toCssValue numberToString (CssNumber n) defaultValue = numberToString n @ ''px''"
| "toCssValue numberToString (CssString v) defaultValue = v"

section \<open>Example inputs\<close>

definition optA :: wheel_option where
  "optA = \<lparr> o_value = ''a'', o_label = ''A'', o_disabled = None \<rparr>"

definition optB :: wheel_option where
  "optB = \<lparr> o_value = ''b'', o_label = ''B'', o_disabled = Some True \<rparr>"

definition optC :: wheel_option where
  "optC = \<lparr> o_value = ''c'', o_label = ''C'', o_disabled = Some False \<rparr>"

definition all_callbacks :: callbacks where
  "all_callbacks = \<lparr> cb_onOpen = True, cb_onClose = True, cb_onChange = True,
     cb_onActiveChange = True, cb_onKeyDown = True \<rparr>"

text \<open>The options \<open>[A, B (disabled), C]\<close> with \<open>C\<close> selected and the default behavior.\<close>

definition abc_props :: props where
  "abc_props = \<lparr> options = [optA, optB, optC], p_value = ''c'', p_disabled = False,
     behavior = defaultBehavior, callbacks = all_callbacks \<rparr>"

definition item56 :: "real \<Rightarrow> item_element" where
  "item56 y = \<lparr> offsetTop = y, clientHeight = 56 \<rparr>"

definition closed_state :: state where
  "closed_state = \<lparr> isOpen = False, activeIndex = 0, triggerRect = None,
     triggerRef = Some \<lparr> rect_left = 10, rect_top = 100, rect_height = 40 \<rparr>,
     selectRef = Some ''c'', wheelRef = None, itemRefs = [],
     initialScrollIndexRef = None, scrollTimeoutRef = None, isScrollingRef = False,
     now = 0, nextTimerId = 1, timers = [], frames = [], trace = [] \<rparr>"

text \<open>
  The picker open on a wheel of height 320 with three items of height 56 below a spacer
  of height 132, scrolled so that the first item is centered.
\<close>

definition open_state :: state where
  "open_state = closed_state \<lparr> isOpen := True,
     triggerRect := Some \<lparr> rect_left = 10, rect_top = 100, rect_height = 40 \<rparr>,
     wheelRef := Some \<lparr> wheelTop = 120, wheelClientHeight = 320, scrollTop = 0 \<rparr>,
     itemRefs := [Some (item56 132), Some (item56 188), Some (item56 244)] \<rparr>"

definition abc_props_nokeys :: props where
  "abc_props_nokeys = abc_props\<lparr>behavior := defaultBehavior\<lparr>keyboardNavigation := False\<rparr>\<rparr>"

definition abc_props_disabled :: props where
  "abc_props_disabled = abc_props\<lparr>p_disabled := True\<rparr>"

text \<open>
  A wheel of height 100 with two items of height 20 whose centers, at 30 and 70, are
  equally far from the wheel's center at 50.
\<close>

definition tie_wheel :: wheel_element where
  "tie_wheel = \<lparr> wheelTop = 0, wheelClientHeight = 100, scrollTop = 0 \<rparr>"

definition tie_state :: state where
  "tie_state = open_state \<lparr> wheelRef := Some tie_wheel,
     itemRefs := [Some \<lparr> offsetTop = 20, clientHeight = 20 \<rparr>,
                  Some \<lparr> offsetTop = 60, clientHeight = 20 \<rparr>] \<rparr>"

text \<open>The open picker right after one scroll event: a debounce timer is pending.\<close>

definition scrolled_state :: state where
  "scrolled_state = scrollEvent abc_props 56 open_state"

text \<open>
  \<open>defaultBehavior\<close> as the object \<open>mergeDeep\<close> receives, and \<open>document.body\<close>
  as \<open>for ... in\<close> sees it: an element's enumerable properties include strings, booleans,
  \<open>null\<close> handlers and objects such as \<open>style\<close>.
\<close>

definition defaultBehavior_js :: jsval where
  "defaultBehavior_js = JObj
     [(''closeOnOutsideClick'', JBool True), (''closeOnEscape'', JBool True),
      (''closeOnSelect'', JBool True), (''scrollDebounceMs'', JNum 50),
      (''keyboardNavigation'', JBool True), (''portalTarget'', JNull),
      (''focusTriggerOnClose'', JBool True)]"

definition body_element :: jsval where
  "body_element = JObj
     [(''title'', JStr []), (''hidden'', JBool False),
      (''style'', JObj [(''cssText'', JStr [])]), (''onclick'', JNull)]"

section \<open>Facts about the array helpers and the trace\<close>

lemma findIndex_from_takeWhile:
  "findIndex_from P i xs =
     (if \<exists>x\<in>set xs. P x then i + int (length (takeWhile (\<lambda>x. \<not> P x) xs)) else - 1)"
  by (induction xs arbitrary: i) auto

lemma findIndex_none: "(\<forall>x\<in>set xs. \<not> P x) \<Longrightarrow> findIndex P xs = - 1"
  by (simp add: findIndex_def findIndex_from_takeWhile)

lemma takeWhile_length_less: "\<exists>x\<in>set xs. \<not> Q x \<Longrightarrow> length (takeWhile Q xs) < length xs"
  by (induction xs) auto

lemma takeWhile_stops: "\<exists>x\<in>set xs. \<not> Q x \<Longrightarrow> \<not> Q (xs ! length (takeWhile Q xs))"
  by (induction xs) auto

lemma takeWhile_before: "j < length (takeWhile Q xs) \<Longrightarrow> Q (xs ! j)"
  by (induction xs arbitrary: j) (auto simp: nth_Cons' split: if_splits)

lemma findIndex_found:
  assumes "\<exists>x\<in>set xs. P x"
  shows "0 \<le> findIndex P xs \<and> nat (findIndex P xs) < length xs \<and> P (xs ! nat (findIndex P xs)) \<and>
         (\<forall>j<nat (findIndex P xs). \<not> P (xs ! j))"
proof -
  let ?k = "length (takeWhile (\<lambda>x. \<not> P x) xs)"
  have eq: "findIndex P xs = int ?k"
    using assms by (simp add: findIndex_def findIndex_from_takeWhile)
  have lt: "?k < length xs"
    using assms takeWhile_length_less[of xs "\<lambda>x. \<not> P x"] by simp
  have hit: "P (xs ! ?k)"
    using assms takeWhile_stops[of xs "\<lambda>x. \<not> P x"] by simp
  have "\<forall>j<?k. \<not> P (xs ! j)"
    using takeWhile_before[of _ "\<lambda>x. \<not> P x" xs] by simp
  with eq lt hit show ?thesis by simp
qed

lemmas example_defs = abc_props_def optA_def optB_def optC_def all_callbacks_def defaultBehavior_def
  open_state_def closed_state_def item56_def

lemma activeIndex_emit [simp]: "activeIndex (emit e s) = activeIndex s"
  by (simp add: emit_def)

lemma activeIndex_scrollIntoView [simp]: "activeIndex (scrollIntoView i s) = activeIndex s"
  by (simp add: scrollIntoView_def split: option.splits)

section \<open>Facts about the \<open>forEach\<close> loop\<close>

lemma forEach_item_append:
  "forEach_item w (xs @ ys) i acc = forEach_item w ys (i + int (length xs)) (forEach_item w xs i acc)"
proof (induction xs arbitrary: i acc)
  case Nil
  then show ?case by simp
next
  case (Cons x xs)
  obtain k d where acc: "acc = (k, d)" by (cases acc)
  have arith: "i + 1 + int (length xs) = i + int (length (x # xs))" by simp
  show ?case
  proof (cases x)
    case None
    then show ?thesis using Cons.IH[of "i + 1" acc] arith by simp
  next
    case (Some it)
    show ?thesis
      using Cons.IH[of "i + 1"] arith unfolding acc Some
      by (simp add: Let_def)
  qed
qed

lemma closest_so_far_step:
  assumes inv: "closest_so_far w xs acc"
  shows "closest_so_far w (xs @ [x]) (forEach_item w [x] (int (length xs)) acc)"
proof (cases x)
  case None
  show ?thesis
  proof (cases "\<forall>y\<in>set xs. y = None")
    case True
    with inv None show ?thesis by (simp add: closest_so_far_def)
  next
    case False
    with inv obtain it where it: "0 \<le> fst acc" "fst acc < int (length xs)"
      "xs ! nat (fst acc) = Some it" "snd acc = Some \<bar>itemCenter w it - wheelCenter w\<bar>"
      "\<forall>j<length xs. \<forall>it'. xs ! j = Some it' \<longrightarrow>
          \<bar>itemCenter w it - wheelCenter w\<bar> \<le> \<bar>itemCenter w it' - wheelCenter w\<bar> \<and>
          (j < nat (fst acc) \<longrightarrow> \<bar>itemCenter w it - wheelCenter w\<bar> < \<bar>itemCenter w it' - wheelCenter w\<bar>)"
      unfolding closest_so_far_def by auto
    have res: "forEach_item w [x] (int (length xs)) acc = acc"
      using None by simp
    have nall: "\<not> (\<forall>y\<in>set (xs @ [x]). y = None)" using False by auto
    have k: "nat (fst acc) < length xs" using it(1,2) by simp
    have "\<forall>j<length (xs @ [x]). \<forall>it'. (xs @ [x]) ! j = Some it' \<longrightarrow>
          \<bar>itemCenter w it - wheelCenter w\<bar> \<le> \<bar>itemCenter w it' - wheelCenter w\<bar> \<and>
          (j < nat (fst acc) \<longrightarrow> \<bar>itemCenter w it - wheelCenter w\<bar> < \<bar>itemCenter w it' - wheelCenter w\<bar>)"
    proof (intro allI impI)
      fix j it' assume j: "j < length (xs @ [x])" and e: "(xs @ [x]) ! j = Some it'"
      have "j < length xs" using j e None by (cases "j = length xs") (auto simp: nth_append)
      with e it(5) show "\<bar>itemCenter w it - wheelCenter w\<bar> \<le> \<bar>itemCenter w it' - wheelCenter w\<bar> \<and>
          (j < nat (fst acc) \<longrightarrow> \<bar>itemCenter w it - wheelCenter w\<bar> < \<bar>itemCenter w it' - wheelCenter w\<bar>)"
        by (simp add: nth_append)
    qed
    moreover have "(xs @ [x]) ! nat (fst acc) = Some it" using k it(3) by (simp add: nth_append)
    ultimately show ?thesis
      unfolding closest_so_far_def res if_not_P[OF nall] using it(1,2,4) by auto
  qed
next
  case (Some it0)
  let ?dnew = "\<bar>itemCenter w it0 - wheelCenter w\<bar>"
  have nall: "\<not> (\<forall>y\<in>set (xs @ [x]). y = None)" using Some by auto
  obtain k d where acc: "acc = (k, d)" by (cases acc)
  show ?thesis
  proof (cases "\<forall>y\<in>set xs. y = None")
    case True
    with inv have a0: "acc = (0, None)" by (simp add: closest_so_far_def)
    have res: "forEach_item w [x] (int (length xs)) acc = (int (length xs), Some ?dnew)"
      using Some a0 by (simp add: less_than_closest_def Let_def)
    have "\<forall>j<length (xs @ [x]). \<forall>it'. (xs @ [x]) ! j = Some it' \<longrightarrow>
          ?dnew \<le> \<bar>itemCenter w it' - wheelCenter w\<bar> \<and>
          (j < length xs \<longrightarrow> ?dnew < \<bar>itemCenter w it' - wheelCenter w\<bar>)"
    proof (intro allI impI)
      fix j it' assume j: "j < length (xs @ [x])" and e: "(xs @ [x]) ! j = Some it'"
      have "j = length xs"
      proof (rule ccontr)
        assume "j \<noteq> length xs"
        with j have jl: "j < length xs" by simp
        then have "xs ! j = None" using True by simp
        with e jl show False by (simp add: nth_append)
      qed
      with e Some show "?dnew \<le> \<bar>itemCenter w it' - wheelCenter w\<bar> \<and>
          (j < length xs \<longrightarrow> ?dnew < \<bar>itemCenter w it' - wheelCenter w\<bar>)" by simp
    qed
    then show ?thesis
      unfolding closest_so_far_def res if_not_P[OF nall] using Some by simp
  next
    case False
    with inv obtain it where it: "0 \<le> k" "k < int (length xs)"
      "xs ! nat k = Some it" "d = Some \<bar>itemCenter w it - wheelCenter w\<bar>"
      "\<forall>j<length xs. \<forall>it'. xs ! j = Some it' \<longrightarrow>
          \<bar>itemCenter w it - wheelCenter w\<bar> \<le> \<bar>itemCenter w it' - wheelCenter w\<bar> \<and>
          (j < nat k \<longrightarrow> \<bar>itemCenter w it - wheelCenter w\<bar> < \<bar>itemCenter w it' - wheelCenter w\<bar>)"
      unfolding closest_so_far_def acc by auto
    let ?d = "\<bar>itemCenter w it - wheelCenter w\<bar>"
    have kl: "nat k < length xs" using it(1,2) by simp
    show ?thesis
    proof (cases "?dnew < ?d")
      case True
      have res: "forEach_item w [x] (int (length xs)) acc = (int (length xs), Some ?dnew)"
        using Some acc it(4) True by (simp add: less_than_closest_def Let_def)
      have "\<forall>j<length (xs @ [x]). \<forall>it'. (xs @ [x]) ! j = Some it' \<longrightarrow>
          ?dnew \<le> \<bar>itemCenter w it' - wheelCenter w\<bar> \<and>
          (j < length xs \<longrightarrow> ?dnew < \<bar>itemCenter w it' - wheelCenter w\<bar>)"
      proof (intro allI impI)
        fix j it' assume j: "j < length (xs @ [x])" and e: "(xs @ [x]) ! j = Some it'"
        show "?dnew \<le> \<bar>itemCenter w it' - wheelCenter w\<bar> \<and>
          (j < length xs \<longrightarrow> ?dnew < \<bar>itemCenter w it' - wheelCenter w\<bar>)"
        proof (cases "j = length xs")
          case True with e Some show ?thesis by simp
        next
          case False
          with j have jl: "j < length xs" by simp
          with e have "xs ! j = Some it'" by (simp add: nth_append)
          with it(5) jl have "?d \<le> \<bar>itemCenter w it' - wheelCenter w\<bar>" by blast
          with True show ?thesis by simp
        qed
      qed
      then show ?thesis
        unfolding closest_so_far_def res if_not_P[OF nall] using Some by simp
    next
      case nlt: False
      have res: "forEach_item w [x] (int (length xs)) acc = (k, d)"
        using Some acc it(4) nlt by (simp add: less_than_closest_def Let_def)
      have "\<forall>j<length (xs @ [x]). \<forall>it'. (xs @ [x]) ! j = Some it' \<longrightarrow>
          ?d \<le> \<bar>itemCenter w it' - wheelCenter w\<bar> \<and>
          (j < nat k \<longrightarrow> ?d < \<bar>itemCenter w it' - wheelCenter w\<bar>)"
      proof (intro allI impI)
        fix j it' assume j: "j < length (xs @ [x])" and e: "(xs @ [x]) ! j = Some it'"
        show "?d \<le> \<bar>itemCenter w it' - wheelCenter w\<bar> \<and>
          (j < nat k \<longrightarrow> ?d < \<bar>itemCenter w it' - wheelCenter w\<bar>)"
        proof (cases "j = length xs")
          case True
          with e Some have "it' = it0" by simp
          moreover from nlt have "?d \<le> ?dnew" by linarith
          moreover have "\<not> j < nat k" using True kl by simp
          ultimately show ?thesis by simp
        next
          case False
          with j have jl: "j < length xs" by simp
          with e have "xs ! j = Some it'" by (simp add: nth_append)
          with it(5) jl show ?thesis by blast
        qed
      qed
      moreover have "(xs @ [x]) ! nat k = Some it" using kl it(3) by (simp add: nth_append)
      ultimately show ?thesis
        unfolding closest_so_far_def res if_not_P[OF nall] using it(1,2,4) by auto
    qed
  qed
qed

lemma forEach_item_closest:
  "closest_so_far w xs (forEach_item w xs 0 (0, None))"
proof (induction xs rule: rev_induct)
  case Nil
  then show ?case by (simp add: closest_so_far_def)
next
  case (snoc x xs)
  have "forEach_item w (xs @ [x]) 0 (0, None) =
        forEach_item w [x] (int (length xs)) (forEach_item w xs 0 (0, None))"
    using forEach_item_append[of w xs "[x]" 0 "(0, None)"] by simp
  with closest_so_far_step[OF snoc.IH, of x] show ?case by simp
qed

lemma closest_index_spec:
  assumes wheel: "wheelRef s = Some wheel"
    and rendered: "\<exists>it. Some it \<in> set (itemRefs s)"
  shows
    "0 \<le> activeIndex (calculateActiveFromScroll p s) \<and>
     activeIndex (calculateActiveFromScroll p s) < int (length (itemRefs s)) \<and>
     (\<exists>it. itemRefs s ! nat (activeIndex (calculateActiveFromScroll p s)) = Some it \<and>
        (\<forall>j<length (itemRefs s). \<forall>it'. itemRefs s ! j = Some it' \<longrightarrow>
           \<bar>itemCenter wheel it - wheelCenter wheel\<bar> \<le> \<bar>itemCenter wheel it' - wheelCenter wheel\<bar> \<and>
           (j < nat (activeIndex (calculateActiveFromScroll p s)) \<longrightarrow>
              \<bar>itemCenter wheel it - wheelCenter wheel\<bar> < \<bar>itemCenter wheel it' - wheelCenter wheel\<bar>)))"
proof -
  let ?acc = "forEach_item wheel (itemRefs s) 0 (0, None)"
  have nall: "\<not> (\<forall>x\<in>set (itemRefs s). x = None)" using rendered by auto
  have act: "activeIndex (calculateActiveFromScroll p s) = fst ?acc"
    using wheel by (simp add: calculateActiveFromScroll_def Let_def emit_def split: option.splits)
  from forEach_item_closest[of wheel "itemRefs s"] nall
  show ?thesis unfolding closest_so_far_def act by auto
qed

lemma calculateActiveFromScroll_trace:
  assumes wheel: "wheelRef s = Some wheel"
  shows "trace (calculateActiveFromScroll p s) = trace s @
          (case js_index (options p) (activeIndex (calculateActiveFromScroll p s)) of
             None \<Rightarrow> []
           | Some opt \<Rightarrow>
               if cb_onActiveChange (callbacks p)
               then [CallbackOnActiveChange (activeIndex (calculateActiveFromScroll p s)) opt] else [])"
  using wheel by (simp add: calculateActiveFromScroll_def Let_def emit_def split: option.splits)

section \<open>Facts about the timer queue\<close>

lemma handleScroll_timers:
  "timers (handleScroll p s) =
     filter (\<lambda>t. Some (fst t) \<noteq> scrollTimeoutRef s) (timers s)
       @ [(nextTimerId s, now s + scrollDebounceMs (behavior p), p)]"
  by (cases "scrollTimeoutRef s")
     (auto simp: handleScroll_def setTimeout_def clearTimeout_def Let_def intro: filter_cong)

lemma handleScroll_ref: "scrollTimeoutRef (handleScroll p s) = Some (nextTimerId s)"
  by (cases "scrollTimeoutRef s")
     (simp_all add: handleScroll_def setTimeout_def clearTimeout_def Let_def)

lemma handleScroll_frame:
  "now (handleScroll p s) = now s \<and> trace (handleScroll p s) = trace s \<and>
   activeIndex (handleScroll p s) = activeIndex s \<and> wheelRef (handleScroll p s) = wheelRef s \<and>
   itemRefs (handleScroll p s) = itemRefs s"
  by (cases "scrollTimeoutRef s")
     (simp_all add: handleScroll_def setTimeout_def clearTimeout_def Let_def)

lemma scrollEvent_pending:
  assumes "timers s = [] \<or> (\<exists>tid due q. timers s = [(tid, due, q)] \<and> scrollTimeoutRef s = Some tid)"
  shows "debounce_pending p (scrollEvent p pos s)"
proof -
  let ?s0 = "s\<lparr>wheelRef := map_option (\<lambda>w. w\<lparr>scrollTop := pos\<rparr>) (wheelRef s)\<rparr>"
  have "filter (\<lambda>t. Some (fst t) \<noteq> scrollTimeoutRef ?s0) (timers ?s0) = []"
    using assms by auto
  then have "timers (scrollEvent p pos s)
      = [(nextTimerId s, now s + scrollDebounceMs (behavior p), p)]"
    unfolding scrollEvent_def handleScroll_timers by simp
  moreover have "scrollTimeoutRef (scrollEvent p pos s) = Some (nextTimerId s)"
    unfolding scrollEvent_def handleScroll_ref by simp
  moreover have "now (scrollEvent p pos s) = now s"
    unfolding scrollEvent_def using handleScroll_frame[of p ?s0] by simp
  ultimately show ?thesis by (simp add: debounce_pending_def)
qed

lemma scrollEvent_frame:
  "trace (scrollEvent p pos s) = trace s \<and> activeIndex (scrollEvent p pos s) = activeIndex s \<and>
   itemRefs (scrollEvent p pos s) = itemRefs s \<and>
   wheelRef (scrollEvent p pos s) = map_option (\<lambda>w. w\<lparr>scrollTop := pos\<rparr>) (wheelRef s)"
  unfolding scrollEvent_def
  using handleScroll_frame[of p "s\<lparr>wheelRef := map_option (\<lambda>w. w\<lparr>scrollTop := pos\<rparr>) (wheelRef s)\<rparr>"]
  by simp

lemma advance_idle:
  assumes "\<forall>t\<in>set (timers s). now s + dt < fst (snd t)"
  shows "advance dt s = s\<lparr>now := now s + dt\<rparr>"
proof -
  have "filter (\<lambda>x. fst (snd x) \<le> now s + dt) (timers s) = []"
    using assms by (auto simp: filter_empty_conv)
  then show ?thesis by (simp add: advance_def Let_def)
qed

lemma advance_fires:
  assumes "timers s = [(tid, due, q)]" and "due \<le> now s + dt"
  shows "advance dt s =
     (timeoutCallback q (emit (TimeoutFired tid) (s\<lparr>timers := [], now := max (now s) due\<rparr>)))
       \<lparr>now := now s + dt\<rparr>"
  using assms by (simp add: advance_def Let_def)

lemma calculateActiveFromScroll_timers:
  "timers (calculateActiveFromScroll p s) = timers s"
  by (simp add: calculateActiveFromScroll_def Let_def emit_def split: option.splits)

lemma timeoutCallback_timers: "timers (timeoutCallback p s) = timers s"
  by (simp add: timeoutCallback_def calculateActiveFromScroll_timers)

lemma map_option_scrollTop:
  "map_option (\<lambda>w. w\<lparr>scrollTop := b\<rparr>) (map_option (\<lambda>w. w\<lparr>scrollTop := a\<rparr>) x)
     = map_option (\<lambda>w. w\<lparr>scrollTop := b\<rparr>) x"
  by (cases x) simp_all

lemma scrollEvents_pending:
  assumes "debounce_pending p s"
    and "\<forall>(dt, pos)\<in>set evs. dt < scrollDebounceMs (behavior p)"
  shows "debounce_pending p (scrollEvents p evs s) \<and>
         trace (scrollEvents p evs s) = trace s \<and>
         activeIndex (scrollEvents p evs s) = activeIndex s \<and>
         itemRefs (scrollEvents p evs s) = itemRefs s \<and>
         wheelRef (scrollEvents p evs s) =
           (if evs = [] then wheelRef s
            else map_option (\<lambda>w. w\<lparr>scrollTop := snd (last evs)\<rparr>) (wheelRef s))"
  using assms
proof (induction evs arbitrary: s)
  case Nil
  then show ?case by simp
next
  case (Cons ev evs)
  obtain dt pos where ev: "ev = (dt, pos)" by (cases ev)
  from Cons.prems(2) ev have dt: "dt < scrollDebounceMs (behavior p)"
    and rest: "\<forall>(dt, pos)\<in>set evs. dt < scrollDebounceMs (behavior p)" by auto
  from Cons.prems(1) obtain tid where tid: "scrollTimeoutRef s = Some tid"
    "timers s = [(tid, now s + scrollDebounceMs (behavior p), p)]"
    by (auto simp: debounce_pending_def split: option.splits)
  have adv: "advance dt s = s\<lparr>now := now s + dt\<rparr>"
    using tid dt by (intro advance_idle) simp
  let ?s1 = "scrollEvent p pos (advance dt s)"
  have p1: "debounce_pending p ?s1"
    unfolding adv using tid by (intro scrollEvent_pending) simp
  have f1: "trace ?s1 = trace s" "activeIndex ?s1 = activeIndex s" "itemRefs ?s1 = itemRefs s"
    "wheelRef ?s1 = map_option (\<lambda>w. w\<lparr>scrollTop := pos\<rparr>) (wheelRef s)"
    unfolding adv using scrollEvent_frame[of p pos "s\<lparr>now := now s + dt\<rparr>"] by simp_all
  from Cons.IH[OF p1 rest] f1 show ?case
    unfolding ev by (simp add: map_option_scrollTop)
qed

lemma calculateActiveFromScroll_activeIndex_cong:
  assumes "wheelRef a = wheelRef b" "itemRefs a = itemRefs b" "activeIndex a = activeIndex b"
  shows "activeIndex (calculateActiveFromScroll p a) = activeIndex (calculateActiveFromScroll p b)"
  using assms by (simp add: calculateActiveFromScroll_def Let_def emit_def split: option.splits)

lemma calculateActiveFromScroll_trace_ext:
  "\<exists>es. trace (calculateActiveFromScroll p s) = trace s @ es \<and>
        (\<forall>e\<in>set es. \<forall>tid'. e \<noteq> TimeoutFired tid')"
proof (cases "wheelRef s")
  case None
  then have "trace (calculateActiveFromScroll p s) = trace s @ []"
    by (simp add: calculateActiveFromScroll_def)
  then show ?thesis by (intro exI[of _ "[]"]) simp
next
  case (Some wheel)
  let ?k = "fst (forEach_item wheel (itemRefs s) 0 (0, None))"
  show ?thesis
  proof (cases "js_index (options p) ?k")
    case None
    with Some have "trace (calculateActiveFromScroll p s) = trace s @ []"
      by (simp add: calculateActiveFromScroll_def Let_def)
    then show ?thesis by (intro exI[of _ "[]"]) simp
  next
    case (Some opt)
    show ?thesis
    proof (cases "cb_onActiveChange (callbacks p)")
      case True
      with Some \<open>wheelRef s = Some wheel\<close>
      have "trace (calculateActiveFromScroll p s) = trace s @ [CallbackOnActiveChange ?k opt]"
        by (simp add: calculateActiveFromScroll_def Let_def emit_def)
      then show ?thesis by (intro exI[of _ "[CallbackOnActiveChange ?k opt]"]) simp
    next
      case False
      with Some \<open>wheelRef s = Some wheel\<close>
      have "trace (calculateActiveFromScroll p s) = trace s @ []"
        by (simp add: calculateActiveFromScroll_def Let_def)
      then show ?thesis by (intro exI[of _ "[]"]) simp
    qed
  qed
qed

section \<open>Commit\<close>

text \<open>
  Claim C1. Committing a value that no option carries, or whose option (the first one
  with that value, which is the one \<open>find\<close> returns) is disabled, changes nothing:
  the state that comes back is the state that went in, so no callback was called, the
  native select kept its value, and the picker is as open or closed as before.
\<close>

theorem commitSelection_ignored:
  assumes "(\<forall>x\<in>set (options p). o_value x \<noteq> newValue) \<or>
           (\<exists>opt. find (\<lambda>x. o_value x = newValue) (options p) = Some opt \<and> is_disabled opt)"
  shows "commitSelection p newValue s = s"
proof (cases "find (\<lambda>x. o_value x = newValue) (options p)")
  case None
  then show ?thesis by (simp add: commitSelection_def)
next
  case (Some opt)
  then have "opt \<in> set (options p) \<and> o_value opt = newValue"
    by (auto simp: find_Some_iff)
  with assms Some have "is_disabled opt" by auto
  with Some show ?thesis by (simp add: commitSelection_def)
qed

theorem commitSelection_ignored_witness:
  "commitSelection abc_props ''b'' open_state = open_state \<and>
   commitSelection abc_props ''zzz'' open_state = open_state \<and>
   is_disabled optB \<and> find (\<lambda>x. o_value x = ''b'') (options abc_props) = Some optB"
proof -
  have b: "find (\<lambda>x. o_value x = ''b'') (options abc_props) = Some optB \<and> is_disabled optB"
    by (simp add: abc_props_def optA_def optB_def optC_def is_disabled_def)
  have z: "\<forall>x\<in>set (options abc_props). o_value x \<noteq> ''zzz''"
    by (simp add: abc_props_def optA_def optB_def optC_def)
  show ?thesis
    using commitSelection_ignored[of abc_props "''b''" open_state]
          commitSelection_ignored[of abc_props "''zzz''" open_state] b z by blast
qed

section \<open>Opening\<close>

text \<open>
  Claim C10. With the \<open>disabled\<close> prop set, \<open>openPicker\<close> returns at its first line:
  the state is unchanged (open flag, active index, trigger rectangle, trace), whether it
  is called from the trigger, from the handle's \<open>open\<close>, or from \<open>toggle\<close> while closed.
\<close>

theorem openPicker_disabled_noop:
  assumes "p_disabled p"
  shows "openPicker p s = s \<and> (\<not> isOpen s \<longrightarrow> toggle p s = s)"
  using assms by (simp add: openPicker_def toggle_def)

theorem openPicker_disabled_noop_witness:
  "p_disabled abc_props_disabled \<and>
   openPicker abc_props_disabled closed_state = closed_state \<and>
   \<not> isOpen closed_state \<and> toggle abc_props_disabled closed_state = closed_state"
proof -
  have d: "p_disabled abc_props_disabled"
    by (simp add: abc_props_disabled_def)
  have c: "\<not> isOpen closed_state"
    by (simp add: closed_state_def)
  from openPicker_disabled_noop[OF d, of closed_state] d c show ?thesis by blast
qed

text \<open>
  Claim C4, as amended. When the widget is not disabled, \<open>openPicker\<close> sets the active
  index and the initial scroll target to the index of the first option whose value is the
  current external value, or to 0 when there is none; it sets the open flag and calls
  \<open>onOpen\<close> (when the host supplied it).
\<close>

theorem openPicker_seeds_index:
  assumes "\<not> p_disabled p"
  shows
    "(let s' = openPicker p s; t = activeIndex s' in
        (if \<exists>x\<in>set (options p). o_value x = p_value p
         then 0 \<le> t \<and> nat t < length (options p) \<and> o_value (options p ! nat t) = p_value p \<and>
              (\<forall>j<nat t. o_value (options p ! j) \<noteq> p_value p)
         else t = 0) \<and>
        initialScrollIndexRef s' = Some t \<and>
        isOpen s' \<and>
        trace s' = trace s @ (if cb_onOpen (callbacks p) then [CallbackOnOpen] else []))"
proof -
  let ?P = "\<lambda>x. o_value x = p_value p"
  let ?idx = "findIndex ?P (options p)"
  let ?t = "if ?idx \<noteq> - 1 then ?idx else 0"
  have act: "activeIndex (openPicker p s) = ?t"
    using assms by (simp add: openPicker_def Let_def emit_def)
  have ini: "initialScrollIndexRef (openPicker p s) = Some ?t"
    using assms by (simp add: openPicker_def Let_def emit_def)
  have opn: "isOpen (openPicker p s)"
    using assms by (simp add: openPicker_def Let_def emit_def)
  have tr: "trace (openPicker p s) = trace s @ (if cb_onOpen (callbacks p) then [CallbackOnOpen] else [])"
    using assms by (simp add: openPicker_def Let_def emit_def split: option.splits)
  have idx: "if \<exists>x\<in>set (options p). ?P x
         then 0 \<le> ?t \<and> nat ?t < length (options p) \<and> ?P (options p ! nat ?t) \<and>
              (\<forall>j<nat ?t. \<not> ?P (options p ! j))
         else ?t = 0"
  proof (cases "\<exists>x\<in>set (options p). ?P x")
    case True
    from findIndex_found[OF True] have f: "0 \<le> ?idx" "nat ?idx < length (options p)"
      "?P (options p ! nat ?idx)" "\<forall>j<nat ?idx. \<not> ?P (options p ! j)" by auto
    then have "?idx \<noteq> - 1" by simp
    with f True show ?thesis by simp
  next
    case False
    then have "?idx = - 1" using findIndex_none[of "options p" ?P] by simp
    with False show ?thesis by simp
  qed
  show ?thesis unfolding Let_def act ini using idx opn tr by simp
qed

theorem openPicker_seeds_index_witness:
  "\<not> p_disabled abc_props \<and>
   activeIndex (openPicker abc_props closed_state) = 2 \<and>
   initialScrollIndexRef (openPicker abc_props closed_state) = Some 2 \<and>
   isOpen (openPicker abc_props closed_state) \<and>
   trace (openPicker abc_props closed_state) = [CallbackOnOpen]"
proof -
  have nd: "\<not> p_disabled abc_props" by (simp add: example_defs)
  have ex: "\<exists>x\<in>set (options abc_props). o_value x = p_value abc_props"
    by (simp add: example_defs)
  have vals: "o_value (options abc_props ! 0) \<noteq> p_value abc_props"
    "o_value (options abc_props ! 1) \<noteq> p_value abc_props" "length (options abc_props) = 3"
    by (simp_all add: example_defs)
  let ?t = "activeIndex (openPicker abc_props closed_state)"
  from openPicker_seeds_index[OF nd, of closed_state] ex
  have r: "0 \<le> ?t" "nat ?t < length (options abc_props)"
     "o_value (options abc_props ! nat ?t) = p_value abc_props"
     "initialScrollIndexRef (openPicker abc_props closed_state) = Some ?t"
     "isOpen (openPicker abc_props closed_state)"
     "trace (openPicker abc_props closed_state) =
        trace closed_state @ (if cb_onOpen (callbacks abc_props) then [CallbackOnOpen] else [])"
    by (simp_all add: Let_def)
  from r(1,2) vals(3) have "?t = 0 \<or> ?t = 1 \<or> ?t = 2" by auto
  with r(3) vals have t2: "?t = 2" by auto
  have "trace closed_state = []" "cb_onOpen (callbacks abc_props)" by (simp_all add: example_defs)
  with r t2 nd show ?thesis by simp
qed

text \<open>
  As stated for every call of \<open>openPicker\<close>, the claim fails when the widget is disabled:
  the value \<open>c\<close> is at index 2, yet nothing is seeded, opened or notified.
\<close>

theorem openPicker_disabled_counterexample:
  "p_value abc_props_disabled = ''c'' \<and> o_value (options abc_props_disabled ! 2) = ''c'' \<and>
   activeIndex (openPicker abc_props_disabled closed_state) = 0 \<and>
   initialScrollIndexRef (openPicker abc_props_disabled closed_state) = None \<and>
   \<not> isOpen (openPicker abc_props_disabled closed_state) \<and>
   trace (openPicker abc_props_disabled closed_state) = []"
  by (simp add: abc_props_disabled_def example_defs openPicker_def)

section \<open>Arrow keys\<close>

lemma skipDisabledDown_spec:
  "i \<le> skipDisabledDown opts i \<and>
   (\<forall>k. i \<le> k \<and> k < skipDisabledDown opts i \<longrightarrow> disabled_at opts k) \<and>
   (skipDisabledDown opts i < int (length opts) \<longrightarrow> \<not> disabled_at opts (skipDisabledDown opts i)) \<and>
   (i \<le> int (length opts) \<longrightarrow> skipDisabledDown opts i \<le> int (length opts))"
proof (induction opts i rule: skipDisabledDown.induct)
  case (1 opts newIndex)
  show ?case
  proof (cases "newIndex < int (length opts) \<and> disabled_at opts newIndex")
    case True
    then have eq: "skipDisabledDown opts newIndex = skipDisabledDown opts (newIndex + 1)"
      by (subst skipDisabledDown.simps) simp
    from "1.IH"[OF True] have ih:
      "newIndex + 1 \<le> skipDisabledDown opts (newIndex + 1)"
      "\<forall>k. newIndex + 1 \<le> k \<and> k < skipDisabledDown opts (newIndex + 1) \<longrightarrow> disabled_at opts k"
      "skipDisabledDown opts (newIndex + 1) < int (length opts) \<longrightarrow>
         \<not> disabled_at opts (skipDisabledDown opts (newIndex + 1))"
      "newIndex + 1 \<le> int (length opts) \<longrightarrow> skipDisabledDown opts (newIndex + 1) \<le> int (length opts)"
      by auto
    have "\<forall>k. newIndex \<le> k \<and> k < skipDisabledDown opts (newIndex + 1) \<longrightarrow> disabled_at opts k"
    proof (intro allI impI)
      fix k assume k: "newIndex \<le> k \<and> k < skipDisabledDown opts (newIndex + 1)"
      show "disabled_at opts k"
      proof (cases "k = newIndex")
        case True with \<open>newIndex < int (length opts) \<and> disabled_at opts newIndex\<close> show ?thesis by simp
      next
        case False with k ih(2) show ?thesis by auto
      qed
    qed
    with ih True show ?thesis unfolding eq by auto
  next
    case False
    then have eq: "skipDisabledDown opts newIndex = newIndex"
      by (subst skipDisabledDown.simps) auto
    with False show ?thesis by auto
  qed
qed

lemma skipDisabledUp_spec:
  "skipDisabledUp opts i \<le> i \<and>
   (\<forall>k. skipDisabledUp opts i < k \<and> k \<le> i \<longrightarrow> disabled_at opts k) \<and>
   (0 \<le> skipDisabledUp opts i \<longrightarrow> \<not> disabled_at opts (skipDisabledUp opts i)) \<and>
   (- 1 \<le> i \<longrightarrow> - 1 \<le> skipDisabledUp opts i)"
proof (induction opts i rule: skipDisabledUp.induct)
  case (1 opts newIndex)
  show ?case
  proof (cases "newIndex \<ge> 0 \<and> disabled_at opts newIndex")
    case True
    then have eq: "skipDisabledUp opts newIndex = skipDisabledUp opts (newIndex - 1)"
      by (subst skipDisabledUp.simps) simp
    from "1.IH"[OF True] have ih:
      "skipDisabledUp opts (newIndex - 1) \<le> newIndex - 1"
      "\<forall>k. skipDisabledUp opts (newIndex - 1) < k \<and> k \<le> newIndex - 1 \<longrightarrow> disabled_at opts k"
      "0 \<le> skipDisabledUp opts (newIndex - 1) \<longrightarrow>
         \<not> disabled_at opts (skipDisabledUp opts (newIndex - 1))"
      "- 1 \<le> newIndex - 1 \<longrightarrow> - 1 \<le> skipDisabledUp opts (newIndex - 1)"
      by auto
    have "\<forall>k. skipDisabledUp opts (newIndex - 1) < k \<and> k \<le> newIndex \<longrightarrow> disabled_at opts k"
    proof (intro allI impI)
      fix k assume k: "skipDisabledUp opts (newIndex - 1) < k \<and> k \<le> newIndex"
      show "disabled_at opts k"
      proof (cases "k = newIndex")
        case True with \<open>newIndex \<ge> 0 \<and> disabled_at opts newIndex\<close> show ?thesis by simp
      next
        case False with k ih(2) show ?thesis by auto
      qed
    qed
    with ih True show ?thesis unfolding eq by auto
  next
    case False
    then have eq: "skipDisabledUp opts newIndex = newIndex"
      by (subst skipDisabledUp.simps) auto
    with False show ?thesis by auto
  qed
qed

lemma arrowDown_index:
  "activeIndex (arrowDown p s) =
     (let r = skipDisabledDown (options p) (activeIndex s + 1)
      in if r \<ge> int (length (options p)) then activeIndex s else r)"
  by (simp add: arrowDown_def Let_def)

lemma arrowUp_index:
  "activeIndex (arrowUp p s) =
     (let r = skipDisabledUp (options p) (activeIndex s - 1)
      in if r < 0 then activeIndex s else r)"
  by (simp add: arrowUp_def Let_def)

lemma handle_ArrowDown:
  "keyboardNavigation (behavior p) \<Longrightarrow>
   activeIndex (handlePickerKeyDown p ArrowDown s) =
     (let r = skipDisabledDown (options p) (activeIndex s + 1)
      in if r \<ge> int (length (options p)) then activeIndex s else r)"
  by (simp add: handlePickerKeyDown_def arrowDown_index Let_def)

lemma handle_ArrowUp:
  "keyboardNavigation (behavior p) \<Longrightarrow>
   activeIndex (handlePickerKeyDown p ArrowUp s) =
     (let r = skipDisabledUp (options p) (activeIndex s - 1)
      in if r < 0 then activeIndex s else r)"
  by (simp add: handlePickerKeyDown_def arrowUp_index Let_def)

text \<open>
  Claim C2, as amended. When keyboard navigation is enabled and the active index is within
  bounds, \<open>ArrowDown\<close> moves it to the nearest following index whose option is not
  disabled, and \<open>ArrowUp\<close> to the nearest preceding one; when there is no such index
  the active index stays. The result is always within bounds.
\<close>

theorem arrow_keys_skip_disabled:
  assumes nav: "keyboardNavigation (behavior p)"
    and lo: "0 \<le> activeIndex s" and hi: "activeIndex s < int (length (options p))"
  shows
    "(let r = activeIndex (handlePickerKeyDown p ArrowDown s) in
        (if \<exists>j. activeIndex s < j \<and> j < int (length (options p)) \<and> \<not> disabled_at (options p) j
         then activeIndex s < r \<and> r < int (length (options p)) \<and> \<not> disabled_at (options p) r \<and>
              (\<forall>k. activeIndex s < k \<and> k < r \<longrightarrow> disabled_at (options p) k)
         else r = activeIndex s) \<and>
        0 \<le> r \<and> r < int (length (options p))) \<and>
     (let r = activeIndex (handlePickerKeyDown p ArrowUp s) in
        (if \<exists>j. 0 \<le> j \<and> j < activeIndex s \<and> \<not> disabled_at (options p) j
         then 0 \<le> r \<and> r < activeIndex s \<and> \<not> disabled_at (options p) r \<and>
              (\<forall>k. r < k \<and> k < activeIndex s \<longrightarrow> disabled_at (options p) k)
         else r = activeIndex s) \<and>
        0 \<le> r \<and> r < int (length (options p)))"
proof -
  let ?n = "int (length (options p))"
  let ?d = "skipDisabledDown (options p) (activeIndex s + 1)"
  let ?u = "skipDisabledUp (options p) (activeIndex s - 1)"
  note D = skipDisabledDown_spec[of "activeIndex s + 1" "options p"]
  note U = skipDisabledUp_spec[of "options p" "activeIndex s - 1"]
  have down: "(let r = activeIndex (handlePickerKeyDown p ArrowDown s) in
        (if \<exists>j. activeIndex s < j \<and> j < ?n \<and> \<not> disabled_at (options p) j
         then activeIndex s < r \<and> r < ?n \<and> \<not> disabled_at (options p) r \<and>
              (\<forall>k. activeIndex s < k \<and> k < r \<longrightarrow> disabled_at (options p) k)
         else r = activeIndex s) \<and> 0 \<le> r \<and> r < ?n)"
  proof (cases "?d \<ge> ?n")
    case True
    then have r: "activeIndex (handlePickerKeyDown p ArrowDown s) = activeIndex s"
      using nav by (simp add: handle_ArrowDown Let_def)
    have "\<not> (\<exists>j. activeIndex s < j \<and> j < ?n \<and> \<not> disabled_at (options p) j)"
      using D True by force
    with r lo hi show ?thesis by (simp add: Let_def)
  next
    case False
    then have r: "activeIndex (handlePickerKeyDown p ArrowDown s) = ?d"
      using nav by (simp add: handle_ArrowDown Let_def)
    have ex: "\<exists>j. activeIndex s < j \<and> j < ?n \<and> \<not> disabled_at (options p) j"
      using D False by (intro exI[of _ ?d]) auto
    have "\<forall>k. activeIndex s < k \<and> k < ?d \<longrightarrow> disabled_at (options p) k"
      using D by auto
    with D False ex lo show ?thesis unfolding r by (simp add: Let_def)
  qed
  have up: "(let r = activeIndex (handlePickerKeyDown p ArrowUp s) in
        (if \<exists>j. 0 \<le> j \<and> j < activeIndex s \<and> \<not> disabled_at (options p) j
         then 0 \<le> r \<and> r < activeIndex s \<and> \<not> disabled_at (options p) r \<and>
              (\<forall>k. r < k \<and> k < activeIndex s \<longrightarrow> disabled_at (options p) k)
         else r = activeIndex s) \<and> 0 \<le> r \<and> r < ?n)"
  proof (cases "?u < 0")
    case True
    then have r: "activeIndex (handlePickerKeyDown p ArrowUp s) = activeIndex s"
      using nav by (simp add: handle_ArrowUp Let_def)
    have "\<not> (\<exists>j. 0 \<le> j \<and> j < activeIndex s \<and> \<not> disabled_at (options p) j)"
      using U True by force
    with r lo hi show ?thesis by (simp add: Let_def)
  next
    case False
    then have r: "activeIndex (handlePickerKeyDown p ArrowUp s) = ?u"
      using nav by (simp add: handle_ArrowUp Let_def)
    have ex: "\<exists>j. 0 \<le> j \<and> j < activeIndex s \<and> \<not> disabled_at (options p) j"
      using U False by (intro exI[of _ ?u]) auto
    have "\<forall>k. ?u < k \<and> k < activeIndex s \<longrightarrow> disabled_at (options p) k"
      using U by auto
    with U False ex hi show ?thesis unfolding r by (simp add: Let_def)
  qed
  from down up show ?thesis by simp
qed

text \<open>
  On \<open>[A, B (disabled), C]\<close> from index 0: \<open>ArrowDown\<close> gives 2, a second
  \<open>ArrowDown\<close> stays at 2, and \<open>ArrowUp\<close> from there gives 0.
\<close>

theorem arrow_keys_skip_disabled_witness:
  "keyboardNavigation (behavior abc_props) \<and> activeIndex open_state = 0 \<and>
   length (options abc_props) = 3 \<and>
   activeIndex (handlePickerKeyDown abc_props ArrowDown open_state) = 2 \<and>
   activeIndex (handlePickerKeyDown abc_props ArrowDown
      (handlePickerKeyDown abc_props ArrowDown open_state)) = 2 \<and>
   activeIndex (handlePickerKeyDown abc_props ArrowUp
      (handlePickerKeyDown abc_props ArrowDown open_state)) = 0"
proof -
  let ?s1 = "handlePickerKeyDown abc_props ArrowDown open_state"
  let ?s2 = "handlePickerKeyDown abc_props ArrowDown ?s1"
  let ?s3 = "handlePickerKeyDown abc_props ArrowUp ?s1"
  let ?opts = "options abc_props"
  have nav: "keyboardNavigation (behavior abc_props)"
    by (simp add: example_defs)
  have a0: "activeIndex open_state = 0" and len: "length ?opts = 3"
    by (simp_all add: example_defs)
  have dis: "\<not> disabled_at ?opts 0" "disabled_at ?opts 1" "\<not> disabled_at ?opts 2"
    by (simp_all add: example_defs disabled_at_def js_index_def is_disabled_def)
  have step1: "activeIndex ?s1 = 2"
  proof -
    have lo: "0 \<le> activeIndex open_state" and hi: "activeIndex open_state < int (length ?opts)"
      using a0 len by simp_all
    have ex: "\<exists>j. activeIndex open_state < j \<and> j < int (length ?opts) \<and> \<not> disabled_at ?opts j"
      using dis a0 len by (intro exI[of _ 2]) simp
    from arrow_keys_skip_disabled[OF nav lo hi, unfolded Let_def]
    have "if \<exists>j. activeIndex open_state < j \<and> j < int (length ?opts) \<and> \<not> disabled_at ?opts j
          then activeIndex open_state < activeIndex ?s1 \<and> activeIndex ?s1 < int (length ?opts) \<and>
               \<not> disabled_at ?opts (activeIndex ?s1) \<and>
               (\<forall>k. activeIndex open_state < k \<and> k < activeIndex ?s1 \<longrightarrow> disabled_at ?opts k)
          else activeIndex ?s1 = activeIndex open_state"
      by blast
    then have r: "activeIndex open_state < activeIndex ?s1 \<and> activeIndex ?s1 < int (length ?opts) \<and>
                  \<not> disabled_at ?opts (activeIndex ?s1)"
      unfolding if_P[OF ex] by blast
    then have "activeIndex ?s1 = 1 \<or> activeIndex ?s1 = 2" using a0 len by arith
    with r dis show ?thesis by auto
  qed
  have lo1: "0 \<le> activeIndex ?s1" and hi1: "activeIndex ?s1 < int (length ?opts)"
    using step1 len by simp_all
  note T1 = arrow_keys_skip_disabled[OF nav lo1 hi1, unfolded Let_def]
  have step2: "activeIndex ?s2 = 2"
  proof -
    have nex: "\<not> (\<exists>j. activeIndex ?s1 < j \<and> j < int (length ?opts) \<and> \<not> disabled_at ?opts j)"
      using step1 len by auto
    from T1
    have "if \<exists>j. activeIndex ?s1 < j \<and> j < int (length ?opts) \<and> \<not> disabled_at ?opts j
          then activeIndex ?s1 < activeIndex ?s2 \<and> activeIndex ?s2 < int (length ?opts) \<and>
               \<not> disabled_at ?opts (activeIndex ?s2) \<and>
               (\<forall>k. activeIndex ?s1 < k \<and> k < activeIndex ?s2 \<longrightarrow> disabled_at ?opts k)
          else activeIndex ?s2 = activeIndex ?s1"
      by blast
    then have "activeIndex ?s2 = activeIndex ?s1"
      unfolding if_not_P[OF nex] .
    with step1 show ?thesis by simp
  qed
  have step3: "activeIndex ?s3 = 0"
  proof -
    have ex: "\<exists>j. 0 \<le> j \<and> j < activeIndex ?s1 \<and> \<not> disabled_at ?opts j"
      using dis step1 by (intro exI[of _ 0]) simp
    from T1
    have "if \<exists>j. 0 \<le> j \<and> j < activeIndex ?s1 \<and> \<not> disabled_at ?opts j
          then 0 \<le> activeIndex ?s3 \<and> activeIndex ?s3 < activeIndex ?s1 \<and>
               \<not> disabled_at ?opts (activeIndex ?s3) \<and>
               (\<forall>k. activeIndex ?s3 < k \<and> k < activeIndex ?s1 \<longrightarrow> disabled_at ?opts k)
          else activeIndex ?s3 = activeIndex ?s1"
      by blast
    then have r: "0 \<le> activeIndex ?s3 \<and> activeIndex ?s3 < activeIndex ?s1 \<and>
                  \<not> disabled_at ?opts (activeIndex ?s3)"
      unfolding if_P[OF ex] by blast
    then have "activeIndex ?s3 = 0 \<or> activeIndex ?s3 = 1" using step1 by arith
    with r dis show ?thesis by auto
  qed
  from nav a0 len step1 step2 step3 show ?thesis by blast
qed

text \<open>
  As stated for the key handler without condition, the claim fails when
  \<open>behavior.keyboardNavigation\<close> is off: the handler returns before looking at the key,
  and the active index stays at 0 although option 2 is enabled.
\<close>

theorem arrow_keys_navigation_off_counterexample:
  "activeIndex open_state = 0 \<and> \<not> disabled_at (options abc_props_nokeys) 2 \<and>
   activeIndex (handlePickerKeyDown abc_props_nokeys ArrowDown open_state) = 0"
  by (simp add: abc_props_nokeys_def example_defs handlePickerKeyDown_def disabled_at_def
      js_index_def is_disabled_def)

section \<open>The imperative \<open>scrollToIndex\<close>\<close>

text \<open>
  Claim C9. \<open>scrollToIndex\<close> leaves the active index, the open flag and the native
  select's value as they are; the only thing it may add to the trace is the
  \<open>scrollIntoView\<close> request for that index, so neither \<open>onChange\<close> nor the change
  notification is called. (The selected value itself is a prop, which no handler can write.)
\<close>

theorem scrollToIndex_frame:
  "activeIndex (scrollToIndex index s) = activeIndex s \<and>
   isOpen (scrollToIndex index s) = isOpen s \<and>
   selectRef (scrollToIndex index s) = selectRef s \<and>
   (\<exists>es. scrollToIndex index s = s\<lparr>trace := trace s @ es\<rparr> \<and> (\<forall>e\<in>set es. e = ScrollIntoView index))"
proof -
  have "\<exists>es. scrollToIndex index s = s\<lparr>trace := trace s @ es\<rparr> \<and> (\<forall>e\<in>set es. e = ScrollIntoView index)"
  proof (cases "item_at s index")
    case None
    then have "scrollToIndex index s = s\<lparr>trace := trace s @ []\<rparr>"
      by (simp add: scrollToIndex_def scrollIntoView_def)
    then show ?thesis by (metis empty_iff empty_set)
  next
    case (Some a)
    then have "scrollToIndex index s = s\<lparr>trace := trace s @ [ScrollIntoView index]\<rparr>"
      by (simp add: scrollToIndex_def scrollIntoView_def emit_def)
    then show ?thesis by (metis empty_iff empty_set set_ConsD)
  qed
  then show ?thesis by (auto simp: scrollToIndex_def scrollIntoView_def emit_def split: option.splits)
qed

theorem scrollToIndex_frame_witness:
  "activeIndex (scrollToIndex 1 open_state) = 0 \<and> isOpen (scrollToIndex 1 open_state) \<and>
   selectRef (scrollToIndex 1 open_state) = Some ''c'' \<and>
   (\<exists>es. scrollToIndex 1 open_state = open_state\<lparr>trace := trace open_state @ es\<rparr> \<and>
         (\<forall>e\<in>set es. e = ScrollIntoView 1))"
  using scrollToIndex_frame[of 1 open_state]
  by (simp add: open_state_def closed_state_def)

section \<open>The item nearest to the center\<close>

text \<open>
  Claim C5. With the wheel mounted and at least one item rendered,
  \<open>calculateActiveFromScroll\<close> sets the active index to the index of a rendered item
  whose center is at minimal absolute distance from the wheel's center, and every rendered
  item at a lower index is strictly farther away, so the lowest index wins a tie. It calls
  \<open>onActiveChange\<close> (when supplied) with that index and its option when the option exists.
\<close>

theorem calculateActiveFromScroll_closest:
  assumes wheel: "wheelRef s = Some wheel"
    and rendered: "\<exists>it. Some it \<in> set (itemRefs s)"
  shows
    "(let s' = calculateActiveFromScroll p s; k = activeIndex s' in
        0 \<le> k \<and> k < int (length (itemRefs s)) \<and>
        (\<exists>it. itemRefs s ! nat k = Some it \<and>
           (\<forall>j<length (itemRefs s). \<forall>it'. itemRefs s ! j = Some it' \<longrightarrow>
              \<bar>itemCenter wheel it - wheelCenter wheel\<bar> \<le> \<bar>itemCenter wheel it' - wheelCenter wheel\<bar> \<and>
              (j < nat k \<longrightarrow>
                 \<bar>itemCenter wheel it - wheelCenter wheel\<bar> < \<bar>itemCenter wheel it' - wheelCenter wheel\<bar>))) \<and>
        trace s' = trace s @
          (case js_index (options p) k of
             None \<Rightarrow> []
           | Some opt \<Rightarrow> if cb_onActiveChange (callbacks p) then [CallbackOnActiveChange k opt] else []))"
  unfolding Let_def
  using closest_index_spec[OF wheel rendered, of p] calculateActiveFromScroll_trace[OF wheel, of p]
  by blast

text \<open>Two items at the same distance 20: index 0 is chosen.\<close>

theorem calculateActiveFromScroll_closest_witness:
  "wheelRef tie_state = Some tie_wheel \<and>
   \<bar>itemCenter tie_wheel \<lparr> offsetTop = 20, clientHeight = 20 \<rparr> - wheelCenter tie_wheel\<bar> = 20 \<and>
   \<bar>itemCenter tie_wheel \<lparr> offsetTop = 60, clientHeight = 20 \<rparr> - wheelCenter tie_wheel\<bar> = 20 \<and>
   activeIndex (calculateActiveFromScroll abc_props tie_state) = 0 \<and>
   trace (calculateActiveFromScroll abc_props tie_state) = [CallbackOnActiveChange 0 optA]"
proof -
  let ?k = "activeIndex (calculateActiveFromScroll abc_props tie_state)"
  let ?a = "\<lparr> offsetTop = 20, clientHeight = 20 \<rparr> :: item_element"
  let ?b = "\<lparr> offsetTop = 60, clientHeight = 20 \<rparr> :: item_element"
  have w: "wheelRef tie_state = Some tie_wheel"
    by (simp add: tie_state_def open_state_def closed_state_def)
  have items: "itemRefs tie_state = [Some ?a, Some ?b]"
    by (simp add: tie_state_def open_state_def closed_state_def)
  have r: "\<exists>it. Some it \<in> set (itemRefs tie_state)"
    unfolding items by auto
  have da: "\<bar>itemCenter tie_wheel ?a - wheelCenter tie_wheel\<bar> = 20"
    and db: "\<bar>itemCenter tie_wheel ?b - wheelCenter tie_wheel\<bar> = 20"
    by (simp_all add: itemCenter_def wheelCenter_def tie_wheel_def
        item_getBoundingClientRect_def wheel_getBoundingClientRect_def)
  from calculateActiveFromScroll_closest[OF w r, of abc_props, unfolded Let_def]
  obtain it where k: "0 \<le> ?k" "?k < int (length (itemRefs tie_state))"
    "itemRefs tie_state ! nat ?k = Some it"
    and best: "\<forall>j<length (itemRefs tie_state). \<forall>it'. itemRefs tie_state ! j = Some it' \<longrightarrow>
              \<bar>itemCenter tie_wheel it - wheelCenter tie_wheel\<bar>
                 \<le> \<bar>itemCenter tie_wheel it' - wheelCenter tie_wheel\<bar> \<and>
              (j < nat ?k \<longrightarrow>
                 \<bar>itemCenter tie_wheel it - wheelCenter tie_wheel\<bar>
                   < \<bar>itemCenter tie_wheel it' - wheelCenter tie_wheel\<bar>)"
    and tr: "trace (calculateActiveFromScroll abc_props tie_state) = trace tie_state @
          (case js_index (options abc_props) ?k of
             None \<Rightarrow> []
           | Some opt \<Rightarrow> if cb_onActiveChange (callbacks abc_props)
                         then [CallbackOnActiveChange ?k opt] else [])"
    by blast
  have k0: "?k = 0"
  proof (rule ccontr)
    assume "?k \<noteq> 0"
    with k(1,2) items have k1: "?k = 1" by simp
    with k(3) items have "it = ?b" by simp
    moreover from best k1 items have "\<bar>itemCenter tie_wheel it - wheelCenter tie_wheel\<bar>
                   < \<bar>itemCenter tie_wheel ?a - wheelCenter tie_wheel\<bar>"
      by (auto dest: spec[of _ 0])
    ultimately show False using da db by simp
  qed
  have "trace tie_state = []" by (simp add: tie_state_def open_state_def closed_state_def)
  moreover have "js_index (options abc_props) 0 = Some optA" "cb_onActiveChange (callbacks abc_props)"
    by (simp_all add: abc_props_def js_index_def all_callbacks_def)
  ultimately have "trace (calculateActiveFromScroll abc_props tie_state) = [CallbackOnActiveChange 0 optA]"
    using tr unfolding k0 by simp
  with w da db k0 show ?thesis by blast
qed

section \<open>Centering, then measuring\<close>

lemma stacked_head_le:
  "stacked (x # xs) \<Longrightarrow> \<forall>it\<in>set xs. 0 < clientHeight it \<Longrightarrow> j < length xs \<Longrightarrow>
   offsetTop x + clientHeight x \<le> offsetTop (xs ! j)"
proof (induction xs arbitrary: x j)
  case Nil
  then show ?case by simp
next
  case (Cons y ys)
  show ?case
  proof (cases j)
    case 0
    with Cons.prems show ?thesis by simp
  next
    case (Suc j')
    from Cons.prems have "stacked (y # ys)" "\<forall>it\<in>set ys. 0 < clientHeight it" "j' < length ys"
      using Suc by simp_all
    from Cons.IH[OF this] have "offsetTop y + clientHeight y \<le> offsetTop (ys ! j')" .
    moreover from Cons.prems have "offsetTop x + clientHeight x \<le> offsetTop y" "0 < clientHeight y"
      by simp_all
    ultimately show ?thesis using Suc by simp
  qed
qed

lemma stacked_tail: "stacked (x # xs) \<Longrightarrow> stacked xs"
  by (cases xs) simp_all

lemma stacked_nth_le:
  "stacked xs \<Longrightarrow> \<forall>it\<in>set xs. 0 < clientHeight it \<Longrightarrow> a < b \<Longrightarrow> b < length xs \<Longrightarrow>
   offsetTop (xs ! a) + clientHeight (xs ! a) \<le> offsetTop (xs ! b)"
proof (induction xs arbitrary: a b)
  case Nil
  then show ?case by simp
next
  case (Cons x xs)
  from Cons.prems(3) obtain b' where b: "b = Suc b'" by (cases b) auto
  show ?case
  proof (cases a)
    case 0
    with stacked_head_le[OF Cons.prems(1), of b'] Cons.prems b show ?thesis by simp
  next
    case (Suc a')
    with Cons.IH[OF stacked_tail[OF Cons.prems(1)], of a' b'] Cons.prems b show ?thesis by simp
  qed
qed

lemma stacked_centers_distinct:
  assumes "stacked xs" "\<forall>it\<in>set xs. 0 < clientHeight it" "a < length xs" "b < length xs"
    and eq: "offsetTop (xs ! a) + clientHeight (xs ! a) / 2 = offsetTop (xs ! b) + clientHeight (xs ! b) / 2"
  shows "a = b"
proof (rule ccontr)
  assume ne: "a \<noteq> b"
  have pa: "0 < clientHeight (xs ! a)" and pb: "0 < clientHeight (xs ! b)"
    using assms(2,3,4) by simp_all
  show False
  proof (cases "a < b")
    case True
    from stacked_nth_le[OF assms(1,2) True assms(4)] pa pb eq show False by simp
  next
    case False
    with ne have "b < a" by simp
    from stacked_nth_le[OF assms(1,2) this assms(3)] pa pb eq show False by simp
  qed
qed

text \<open>
  How the picker gets there: after \<open>openPicker\<close> the effect on \<open>isOpen\<close> queues one
  animation frame, and running it is the frame callback for the seeded index.
\<close>

lemma open_effect_runs_frameCallback:
  assumes "isOpen s" and "initialScrollIndexRef s = Some targetIndex" and "frames s = []"
  shows "runAnimationFrame (openScrollEffect s) =
           frameCallback targetIndex (s\<lparr>initialScrollIndexRef := None, frames := []\<rparr>)"
  using assms by (simp add: runAnimationFrame_def openScrollEffect_def)

text \<open>
  Claim C3. In the layout model of this theory, with the wheel mounted, one rendered item
  per option, every item of positive height and the items stacked without overlap: after
  the open-time frame callback has assigned
  \<open>scrollTop = itemTop - wheelHeight / 2 + itemHeight / 2\<close> for a valid index \<open>i\<close>,
  \<open>calculateActiveFromScroll\<close> yields the active index \<open>i\<close>.
\<close>

theorem center_then_measure:
  assumes wheel: "wheelRef s = Some wheel"
    and items: "itemRefs s = map Some items"
    and len: "length items = length (options p)"
    and pos: "\<forall>it\<in>set items. 0 < clientHeight it"
    and st: "stacked items"
    and lo: "0 \<le> i" and hi: "i < int (length (options p))"
  shows "activeIndex (calculateActiveFromScroll p (frameCallback i s)) = i"
proof -
  let ?ti = "items ! nat i"
  let ?w = "wheel\<lparr>scrollTop := offsetTop ?ti - (wheelClientHeight wheel / 2) + (clientHeight ?ti / 2)\<rparr>"
  let ?s1 = "frameCallback i s"
  let ?k = "activeIndex (calculateActiveFromScroll p ?s1)"
  have ni: "nat i < length items" using lo hi len by simp
  have at: "item_at s i = Some ?ti"
    using lo hi len items by (simp add: item_at_def js_index_def)
  have s1: "?s1 = s\<lparr>wheelRef := Some ?w\<rparr>"
    using wheel at by (simp add: frameCallback_def Let_def)
  have w1: "wheelRef ?s1 = Some ?w" and it1: "itemRefs ?s1 = map Some items"
    unfolding s1 using items by simp_all
  have rendered: "\<exists>it. Some it \<in> set (itemRefs ?s1)"
    unfolding it1 using ni by (intro exI[of _ ?ti]) simp
  have center: "\<And>it. itemCenter ?w it - wheelCenter ?w =
      (offsetTop it + clientHeight it / 2) - (offsetTop ?ti + clientHeight ?ti / 2)"
    by (simp add: itemCenter_def wheelCenter_def item_getBoundingClientRect_def
        wheel_getBoundingClientRect_def)
  from closest_index_spec[OF w1 rendered, of p]
  obtain it where k: "0 \<le> ?k" "?k < int (length (itemRefs ?s1))" "itemRefs ?s1 ! nat ?k = Some it"
    and best: "\<forall>j<length (itemRefs ?s1). \<forall>it'. itemRefs ?s1 ! j = Some it' \<longrightarrow>
           \<bar>itemCenter ?w it - wheelCenter ?w\<bar> \<le> \<bar>itemCenter ?w it' - wheelCenter ?w\<bar>"
    by blast
  have nk: "nat ?k < length items" using k(1,2) unfolding it1 by simp
  have itk: "it = items ! nat ?k" using k(3) nk unfolding it1 by simp
  have "itemRefs ?s1 ! nat i = Some ?ti" unfolding it1 using ni by simp
  with best ni have "\<bar>itemCenter ?w it - wheelCenter ?w\<bar> \<le> \<bar>itemCenter ?w ?ti - wheelCenter ?w\<bar>"
    unfolding it1 by simp
  then have "offsetTop it + clientHeight it / 2 = offsetTop ?ti + clientHeight ?ti / 2"
    unfolding center by simp
  with stacked_centers_distinct[OF st pos nk ni] itk have "nat ?k = nat i" by simp
  with k(1) lo show ?thesis by simp
qed

theorem center_then_measure_witness:
  "wheelRef open_state = Some \<lparr> wheelTop = 120, wheelClientHeight = 320, scrollTop = 0 \<rparr> \<and>
   itemRefs open_state = map Some [item56 132, item56 188, item56 244] \<and>
   stacked [item56 132, item56 188, item56 244] \<and>
   wheelRef (frameCallback 1 open_state)
     = Some \<lparr> wheelTop = 120, wheelClientHeight = 320, scrollTop = 56 \<rparr> \<and>
   activeIndex (calculateActiveFromScroll abc_props (frameCallback 1 open_state)) = 1"
proof -
  let ?items = "[item56 132, item56 188, item56 244]"
  have w: "wheelRef open_state = Some \<lparr> wheelTop = 120, wheelClientHeight = 320, scrollTop = 0 \<rparr>"
    and items: "itemRefs open_state = map Some ?items"
    by (simp_all add: open_state_def closed_state_def)
  have len: "length ?items = length (options abc_props)" by (simp add: abc_props_def)
  have pos: "\<forall>it\<in>set ?items. 0 < clientHeight it" by (simp add: item56_def)
  have st: "stacked ?items" by (simp add: item56_def)
  have lo: "(0::int) \<le> 1" and hi: "1 < int (length (options abc_props))"
    by (simp_all add: abc_props_def)
  have fr: "wheelRef (frameCallback 1 open_state)
     = Some \<lparr> wheelTop = 120, wheelClientHeight = 320, scrollTop = 56 \<rparr>"
    by (simp add: frameCallback_def item_at_def js_index_def open_state_def closed_state_def
        item56_def Let_def)
  from center_then_measure[OF w items len pos st lo hi] w items st fr show ?thesis by blast
qed

section \<open>The scroll debounce\<close>

text \<open>
  Claim C6. Every call of \<open>handleScroll\<close> removes the timer that \<open>scrollTimeoutRef\<close>
  names from the queue and queues a new one, due \<open>scrollDebounceMs\<close> (50 by default)
  after the event. Starting with no timer queued, after any non-empty sequence of scroll
  events whose gaps are shorter than the delay, nothing has fired or been recomputed, the
  wheel is at the last event's offset, and exactly the last event's timer is queued. Once
  the delay has passed, that timer is the one timer that fires, the active index is the one
  \<open>calculateActiveFromScroll\<close> computes from the final position, and the queue is empty.
\<close>

theorem scroll_debounce:
  assumes idle: "timers s = []"
    and nonempty: "evs \<noteq> []"
    and gaps: "\<forall>(dt, pos)\<in>set (tl evs). dt < scrollDebounceMs (behavior p)"
    and settle: "scrollDebounceMs (behavior p) \<le> T"
  shows
    "(\<forall>s0. timers (handleScroll p s0) =
             filter (\<lambda>t. Some (fst t) \<noteq> scrollTimeoutRef s0) (timers s0)
               @ [(nextTimerId s0, now s0 + scrollDebounceMs (behavior p), p)] \<and>
           scrollTimeoutRef (handleScroll p s0) = Some (nextTimerId s0)) \<and>
     scrollDebounceMs defaultBehavior = 50 \<and>
     (let s1 = scrollEvents p evs s; s2 = advance T s1 in
        trace s1 = trace s \<and> activeIndex s1 = activeIndex s \<and>
        wheelRef s1 = map_option (\<lambda>w. w\<lparr>scrollTop := snd (last evs)\<rparr>) (wheelRef s) \<and>
        (\<exists>tid. scrollTimeoutRef s1 = Some tid \<and>
               timers s1 = [(tid, now s1 + scrollDebounceMs (behavior p), p)] \<and>
               s2 = (timeoutCallback p
                      (emit (TimeoutFired tid)
                         (s1\<lparr>timers := [], now := now s1 + scrollDebounceMs (behavior p)\<rparr>)))
                    \<lparr>now := now s1 + T\<rparr>) \<and>
        timers s2 = [] \<and>
        activeIndex s2 = activeIndex (calculateActiveFromScroll p s1) \<and>
        (\<exists>tid es. trace s2 = trace s @ TimeoutFired tid # es \<and>
                  (\<forall>e\<in>set es. \<forall>tid'. e \<noteq> TimeoutFired tid')))"
proof -
  obtain dt pos rest where evs: "evs = (dt, pos) # rest"
    using nonempty by (cases evs) auto
  have adv0: "advance dt s = s\<lparr>now := now s + dt\<rparr>"
    using idle by (intro advance_idle) simp
  let ?sa = "scrollEvent p pos (advance dt s)"
  let ?s1 = "scrollEvents p evs s"
  have pa: "debounce_pending p ?sa"
    unfolding adv0 using idle by (intro scrollEvent_pending) simp
  have fa: "trace ?sa = trace s" "activeIndex ?sa = activeIndex s"
    "wheelRef ?sa = map_option (\<lambda>w. w\<lparr>scrollTop := pos\<rparr>) (wheelRef s)"
    unfolding adv0 using scrollEvent_frame[of p pos "s\<lparr>now := now s + dt\<rparr>"] by simp_all
  have rest: "\<forall>(dt, pos)\<in>set rest. dt < scrollDebounceMs (behavior p)"
    using gaps evs by simp
  have s1: "?s1 = scrollEvents p rest ?sa" unfolding evs by simp
  from scrollEvents_pending[OF pa rest]
  have p1: "debounce_pending p ?s1" and tr: "trace ?s1 = trace s"
    and ai: "activeIndex ?s1 = activeIndex s"
    and wh: "wheelRef ?s1 = map_option (\<lambda>w. w\<lparr>scrollTop := snd (last evs)\<rparr>) (wheelRef s)"
    unfolding s1 using fa evs by (simp_all add: map_option_scrollTop)
  from p1 obtain tid where tid: "scrollTimeoutRef ?s1 = Some tid"
    "timers ?s1 = [(tid, now ?s1 + scrollDebounceMs (behavior p), p)]"
    by (auto simp: debounce_pending_def split: option.splits)
  have fire: "advance T ?s1 =
      (timeoutCallback p
         (emit (TimeoutFired tid)
            (?s1\<lparr>timers := [], now := now ?s1 + scrollDebounceMs (behavior p)\<rparr>)))
       \<lparr>now := now ?s1 + T\<rparr>"
    using advance_fires[OF tid(2), of T] settle by (simp add: max_def)
  have empty: "timers (advance T ?s1) = []"
    unfolding fire by (simp add: timeoutCallback_timers emit_def)
  have step: "\<forall>s0. timers (handleScroll p s0) =
             filter (\<lambda>t. Some (fst t) \<noteq> scrollTimeoutRef s0) (timers s0)
               @ [(nextTimerId s0, now s0 + scrollDebounceMs (behavior p), p)] \<and>
           scrollTimeoutRef (handleScroll p s0) = Some (nextTimerId s0)"
    by (simp add: handleScroll_timers handleScroll_ref)
  have dflt: "scrollDebounceMs defaultBehavior = 50" by (simp add: defaultBehavior_def)
  let ?fired = "emit (TimeoutFired tid)
            (?s1\<lparr>timers := [], now := now ?s1 + scrollDebounceMs (behavior p)\<rparr>)"
  have "activeIndex (calculateActiveFromScroll p (?fired\<lparr>isScrollingRef := False\<rparr>))
        = activeIndex (calculateActiveFromScroll p ?s1)"
    by (rule calculateActiveFromScroll_activeIndex_cong) (simp_all add: emit_def)
  then have act: "activeIndex (advance T ?s1) = activeIndex (calculateActiveFromScroll p ?s1)"
    unfolding fire timeoutCallback_def by simp
  from calculateActiveFromScroll_trace_ext[of p "?fired\<lparr>isScrollingRef := False\<rparr>"]
  obtain es where es0: "trace (calculateActiveFromScroll p (?fired\<lparr>isScrollingRef := False\<rparr>))
        = trace (?fired\<lparr>isScrollingRef := False\<rparr>) @ es"
    "\<forall>e\<in>set es. \<forall>tid'. e \<noteq> TimeoutFired tid'"
    by blast
  have "trace (?fired\<lparr>isScrollingRef := False\<rparr>) = trace ?s1 @ [TimeoutFired tid]"
    by (simp add: emit_def)
  with es0 have es: "trace (advance T ?s1) = (trace ?s1 @ [TimeoutFired tid]) @ es"
    unfolding fire timeoutCallback_def by simp
  note es = es es0(2)
  then have trace2: "\<exists>tid es. trace (advance T ?s1) = trace s @ TimeoutFired tid # es \<and>
                  (\<forall>e\<in>set es. \<forall>tid'. e \<noteq> TimeoutFired tid')"
    unfolding tr by (intro exI[of _ tid] exI[of _ es]) simp
  from tr ai wh tid fire empty step dflt act trace2 show ?thesis unfolding Let_def by blast
qed

text \<open>Two scroll events 10 ms apart, then 50 ms of quiet: only timer 2 fires.\<close>

theorem scroll_debounce_witness:
  "timers open_state = [] \<and> scrollDebounceMs (behavior abc_props) = 50 \<and>
   timers (scrollEvents abc_props [(0, 56), (10, 112)] open_state) = [(2, 60, abc_props)] \<and>
   timers (advance 50 (scrollEvents abc_props [(0, 56), (10, 112)] open_state)) = [] \<and>
   activeIndex (advance 50 (scrollEvents abc_props [(0, 56), (10, 112)] open_state)) = 2 \<and>
   trace (advance 50 (scrollEvents abc_props [(0, 56), (10, 112)] open_state))
     = [TimeoutFired 2, CallbackOnActiveChange 2 optC]"
proof -
  let ?evs = "[(0, 56), (10, 112)] :: (nat \<times> real) list"
  let ?s1 = "scrollEvents abc_props ?evs open_state"
  have idle: "timers open_state = []" by (simp add: open_state_def closed_state_def)
  have d: "scrollDebounceMs (behavior abc_props) = 50" by (simp add: abc_props_def defaultBehavior_def)
  have ne: "?evs \<noteq> []" by simp
  have gaps: "\<forall>(dt, pos)\<in>set (tl ?evs). dt < scrollDebounceMs (behavior abc_props)"
    unfolding d by simp
  have settle: "scrollDebounceMs (behavior abc_props) \<le> 50" unfolding d by simp
  have s1: "?s1 = open_state\<lparr>
      wheelRef := Some \<lparr> wheelTop = 120, wheelClientHeight = 320, scrollTop = 112 \<rparr>,
      scrollTimeoutRef := Some 2, isScrollingRef := True, now := 10, nextTimerId := 3,
      timers := [(2, 60, abc_props)] \<rparr>"
    by (simp add: scrollEvent_def handleScroll_def setTimeout_def clearTimeout_def advance_def
        Let_def d open_state_def closed_state_def)
  have t1: "timers ?s1 = [(2, 60, abc_props)]" unfolding s1 by simp
  have calc: "calculateActiveFromScroll abc_props ?s1 = ?s1\<lparr>activeIndex := 2,
      trace := [CallbackOnActiveChange 2 optC]\<rparr>"
    unfolding s1
    by (simp add: calculateActiveFromScroll_def Let_def emit_def less_than_closest_def
        itemCenter_def wheelCenter_def item_getBoundingClientRect_def
        wheel_getBoundingClientRect_def js_index_def example_defs)
  from scroll_debounce[OF idle ne gaps settle, unfolded Let_def]
  obtain tid es where r: "timers (advance 50 ?s1) = []"
    "activeIndex (advance 50 ?s1) = activeIndex (calculateActiveFromScroll abc_props ?s1)"
    "scrollTimeoutRef ?s1 = Some tid"
    "advance 50 ?s1 = (timeoutCallback abc_props
                      (emit (TimeoutFired tid)
                         (?s1\<lparr>timers := [], now := now ?s1 + scrollDebounceMs (behavior abc_props)\<rparr>)))
                    \<lparr>now := now ?s1 + 50\<rparr>"
    by blast
  have tid: "tid = 2" using r(3) unfolding s1 by simp
  have a2: "activeIndex (advance 50 ?s1) = 2" unfolding r(2) calc by simp
  have tr: "trace (advance 50 ?s1) = [TimeoutFired 2, CallbackOnActiveChange 2 optC]"
    unfolding r(4) tid unfolding s1
    by (simp add: timeoutCallback_def calculateActiveFromScroll_def Let_def emit_def
        less_than_closest_def itemCenter_def wheelCenter_def item_getBoundingClientRect_def
        wheel_getBoundingClientRect_def js_index_def example_defs)
  from idle d t1 r(1) a2 tr show ?thesis by blast
qed

section \<open>The pending timer at unmount and at close\<close>

lemma closePicker_timers:
  "timers (closePicker p s) = timers s \<and> scrollTimeoutRef (closePicker p s) = scrollTimeoutRef s \<and>
   now (closePicker p s) = now s"
  by (simp add: closePicker_def Let_def emit_def focusTrigger_def split: option.splits)

text \<open>
  The unmount half holds: in a state whose one queued timer is the debounce timer named by
  \<open>scrollTimeoutRef\<close>, the unmount cleanup empties the queue, and no callback runs
  however much time passes afterwards.
\<close>

lemma unmountCleanup_clears_timer:
  assumes ref: "scrollTimeoutRef s = Some tid"
    and pend: "timers s = [(tid, due, q)]"
  shows "timers (unmountCleanup s) = [] \<and>
         (\<forall>dt. advance dt (unmountCleanup s) = (unmountCleanup s)\<lparr>now := now s + dt\<rparr>)"
proof -
  have um: "unmountCleanup s = s\<lparr>timers := []\<rparr>"
    using ref pend by (simp add: unmountCleanup_def clearTimeout_def)
  have t0: "timers (unmountCleanup s) = []" unfolding um by simp
  have "\<forall>dt. advance dt (unmountCleanup s) = (unmountCleanup s)\<lparr>now := now s + dt\<rparr>"
  proof
    fix dt
    have "advance dt (unmountCleanup s) = (unmountCleanup s)\<lparr>now := now (unmountCleanup s) + dt\<rparr>"
      using t0 by (intro advance_idle) simp
    then show "advance dt (unmountCleanup s) = (unmountCleanup s)\<lparr>now := now s + dt\<rparr>"
      unfolding um by simp
  qed
  with t0 show ?thesis by blast
qed

lemma scrolled_state_eq:
  "scrolled_state = open_state\<lparr>
      wheelRef := Some \<lparr> wheelTop = 120, wheelClientHeight = 320, scrollTop = 56 \<rparr>,
      scrollTimeoutRef := Some 1, isScrollingRef := True, nextTimerId := 2,
      timers := [(1, 50, abc_props)] \<rparr>"
  by (simp add: scrolled_state_def scrollEvent_def handleScroll_def setTimeout_def clearTimeout_def
      Let_def open_state_def closed_state_def abc_props_def defaultBehavior_def)

text \<open>
  Claim C7 says that unmounting and \<open>closePicker\<close> both clear the pending debounce timer,
  so that the deferred recomputation never runs after unmount or close. The code does this
  at unmount and in \<open>handleItemClick\<close>, but \<open>closePicker\<close> leaves the timer queued.
  After one scroll event to offset 56, \<open>closePicker\<close> and a new \<open>openPicker\<close> within the
  debounce delay: the timer of the closed picker is still queued, \<open>openPicker\<close> seeds
  index 2 for the selected value, and 50 ms after the scroll the stale timer fires and
  recomputes the active index to 1.
\<close>

theorem closePicker_keeps_timer:
  "timers scrolled_state = [(1, 50, abc_props)] \<and>
   timers (unmountCleanup scrolled_state) = [] \<and>
   timers (closePicker abc_props scrolled_state) = [(1, 50, abc_props)] \<and>
   scrollTimeoutRef (closePicker abc_props scrolled_state) = Some 1 \<and>
   activeIndex (openPicker abc_props (closePicker abc_props scrolled_state)) = 2 \<and>
   activeIndex (advance 50 (openPicker abc_props (closePicker abc_props scrolled_state))) = 1 \<and>
   trace (advance 50 (openPicker abc_props (closePicker abc_props scrolled_state)))
     = [FocusTrigger, CallbackOnClose, CallbackOnOpen, TimeoutFired 1,
        CallbackOnActiveChange 1 optB]"
proof -
  let ?closed = "closePicker abc_props scrolled_state"
  let ?reopened = "openPicker abc_props ?closed"
  have t: "timers scrolled_state = [(1, 50, abc_props)]"
    unfolding scrolled_state_eq by simp
  have u: "timers (unmountCleanup scrolled_state) = []"
    unfolding scrolled_state_eq by (simp add: unmountCleanup_def clearTimeout_def)
  have c: "timers ?closed = [(1, 50, abc_props)]" "scrollTimeoutRef ?closed = Some 1"
    using closePicker_timers[of abc_props scrolled_state] unfolding scrolled_state_eq by simp_all
  have closed: "?closed = scrolled_state\<lparr>isOpen := False, trace := [FocusTrigger, CallbackOnClose]\<rparr>"
    unfolding scrolled_state_eq
    by (simp add: closePicker_def focusTrigger_def emit_def Let_def example_defs)
  have idx: "findIndex (\<lambda>x. o_value x = p_value abc_props) (options abc_props) = 2"
    by (simp add: findIndex_def example_defs)
  have nd: "\<not> p_disabled abc_props" "cb_onOpen (callbacks abc_props)"
    by (simp_all add: example_defs)
  have reopened: "?reopened = scrolled_state\<lparr>isOpen := True, activeIndex := 2,
      initialScrollIndexRef := Some 2,
      trace := [FocusTrigger, CallbackOnClose, CallbackOnOpen]\<rparr>"
    unfolding closed unfolding scrolled_state_eq
    by (simp add: openPicker_def idx nd Let_def emit_def open_state_def closed_state_def)
  have a2: "activeIndex ?reopened = 2" unfolding reopened by simp
  have fired: "advance 50 ?reopened =
      ?reopened\<lparr>activeIndex := 1, isScrollingRef := False, now := 50, timers := [],
        trace := [FocusTrigger, CallbackOnClose, CallbackOnOpen, TimeoutFired 1,
                  CallbackOnActiveChange 1 optB]\<rparr>"
    unfolding reopened unfolding scrolled_state_eq
    by (simp add: advance_def timeoutCallback_def calculateActiveFromScroll_def Let_def emit_def
        less_than_closest_def itemCenter_def wheelCenter_def item_getBoundingClientRect_def
        wheel_getBoundingClientRect_def js_index_def example_defs)
  have a1: "activeIndex (advance 50 ?reopened) = 1" unfolding fired by simp
  have tr: "trace (advance 50 ?reopened)
     = [FocusTrigger, CallbackOnClose, CallbackOnOpen, TimeoutFired 1,
        CallbackOnActiveChange 1 optB]" unfolding fired by simp
  from t u c a2 a1 tr show ?thesis by blast
qed

section \<open>Facts about the configuration merge\<close>

lemma map_of_assign: "map_of (assign k v kvs) = (map_of kvs)(k \<mapsto> v)"
  by (induction kvs) (auto simp: fun_eq_iff)

lemma get_own_assign: "get_own (assign k v kvs) k' = (if k' = k then v else get_own kvs k')"
  by (simp add: get_own_def map_of_assign)

lemma get_own_Cons:
  "get_own ((key, v) # rest) k = (if k = key then v else get_own rest k)"
  by (simp add: get_own_def)

lemma get_own_absent: "k \<notin> set (map fst kvs) \<Longrightarrow> get_own kvs k = JUndefined"
  by (simp add: get_own_def map_of_eq_None_iff[THEN iffD2])

text \<open>
  Whenever \<open>mergeDeep\<close> returns, each field of the result is as the merge is described:
  the default where the override has \<open>undefined\<close> or nothing, the override's value where
  it is set to anything that is not a non-array object (\<open>null\<close>, \<open>false\<close>, \<open>0\<close>
  and the empty string included), and the recursive merge where it is such an object.
\<close>

lemma mergeLoop_step:
  assumes "mergeLoop target ((key, v) # rest) result = Inr r"
  shows "\<exists>result'. mergeLoop target rest result' = Inr r \<and>
           (\<forall>k. k \<noteq> key \<longrightarrow> get_own result' k = get_own result k) \<and>
           (case v of
              JUndefined \<Rightarrow> result' = result
            | JObj obj \<Rightarrow>
                (\<exists>t m. read_prop target key = Inr t \<and> mergeDeep t obj = Inr m \<and>
                       get_own result' key = JObj m)
            | _ \<Rightarrow> get_own result' key = v)"
proof (cases v)
  case JUndefined
  with assms show ?thesis by (intro exI[of _ result]) simp
next
  case (JObj obj)
  with assms obtain t m where tm: "read_prop target key = Inr t" "mergeDeep t obj = Inr m"
    "mergeLoop target rest (assign key (JObj m) result) = Inr r"
    by (auto split: sum.splits)
  then show ?thesis unfolding JObj
    by (intro exI[of _ "assign key (JObj m) result"]) (simp add: get_own_assign)
next
  case JNull
  with assms show ?thesis by (intro exI[of _ "assign key v result"]) (simp add: get_own_assign)
next
  case (JBool b)
  with assms show ?thesis by (intro exI[of _ "assign key v result"]) (simp add: get_own_assign)
next
  case (JNum n)
  with assms show ?thesis by (intro exI[of _ "assign key v result"]) (simp add: get_own_assign)
next
  case (JStr x)
  with assms show ?thesis by (intro exI[of _ "assign key v result"]) (simp add: get_own_assign)
next
  case (JArr xs)
  with assms show ?thesis by (intro exI[of _ "assign key v result"]) (simp add: get_own_assign)
qed

lemma mergeLoop_field:
  assumes "mergeLoop target src result = Inr r" and "distinct (map fst src)"
  shows "case get_own src k of
           JUndefined \<Rightarrow> get_own r k = get_own result k
         | JObj obj \<Rightarrow>
             (\<exists>t m. read_prop target k = Inr t \<and> mergeDeep t obj = Inr m \<and> get_own r k = JObj m)
         | v \<Rightarrow> get_own r k = v"
  using assms
proof (induction src arbitrary: result)
  case Nil
  then show ?case by (simp add: get_own_def)
next
  case (Cons kv rest)
  obtain key v where kv: "kv = (key, v)" by (cases kv)
  from Cons.prems(2) kv have dist: "distinct (map fst rest)" and fresh: "key \<notin> set (map fst rest)"
    by simp_all
  from mergeLoop_step[OF Cons.prems(1)[unfolded kv]]
  obtain result' where step: "mergeLoop target rest result' = Inr r"
    "\<forall>k. k \<noteq> key \<longrightarrow> get_own result' k = get_own result k"
    "case v of
       JUndefined \<Rightarrow> result' = result
     | JObj obj \<Rightarrow>
         (\<exists>t m. read_prop target key = Inr t \<and> mergeDeep t obj = Inr m \<and>
                get_own result' key = JObj m)
     | _ \<Rightarrow> get_own result' key = v"
    by blast
  note IH = Cons.IH[OF step(1) dist]
  show ?case
  proof (cases "k = key")
    case False
    then have "get_own (kv # rest) k = get_own rest k" by (simp add: kv get_own_Cons)
    moreover have "get_own result' k = get_own result k" using False step(2) by simp
    ultimately show ?thesis using IH[of ] by (simp split: jsval.splits)
  next
    case True
    have here: "get_own (kv # rest) k = v" using True by (simp add: kv get_own_Cons)
    have "get_own rest k = JUndefined" using True fresh by (simp add: get_own_absent)
    with IH have r: "get_own r k = get_own result' k" by simp
    show ?thesis unfolding here r using step(3) True by (cases v) auto
  qed
qed

lemma mergeDeep_field:
  assumes "mergeDeep (JObj defaults) override = Inr r" and "distinct (map fst override)"
  shows "case get_own override k of
           JUndefined \<Rightarrow> get_own r k = get_own defaults k
         | JObj obj \<Rightarrow> (\<exists>m. mergeDeep (get_own defaults k) obj = Inr m \<and> get_own r k = JObj m)
         | v \<Rightarrow> get_own r k = v"
  using mergeLoop_field[of "JObj defaults" override defaults r k] assms
  by (auto split: jsval.splits)

lemma mergeDeep_falsy_example:
  "mergeDeep (JObj [(''duration'', JNum 200), (''disabled'', JBool True), (''easing'', JStr ''ease''),
                    (''colors'', JObj [(''text'', JStr ''inherit''), (''activeBg'', JStr ''red'')])])
     [(''duration'', JNum 0), (''disabled'', JBool False), (''easing'', JStr []),
      (''size'', JUndefined), (''colors'', JObj [(''text'', JStr ''blue'')])]
   = Inr [(''duration'', JNum 0), (''disabled'', JBool False), (''easing'', JStr []),
          (''colors'', JObj [(''text'', JStr ''blue''), (''activeBg'', JStr ''red'')])]"
  by (simp add: get_own_def)

lemma toCssValue_cases:
  "toCssValue numberToString (CssNumber n) d = numberToString n @ ''px'' \<and>
   toCssValue numberToString (CssString v) d = v \<and>
   toCssValue numberToString CssUndefined d = d"
  by simp

text \<open>
  Claim C8 says that for every default record and every override the merged result carries
  the override's value in each field the override sets. The code does not get there for the
  documented override \<open>behavior = { portalTarget: document.body }\<close>: the default
  \<open>portalTarget\<close> is \<open>null\<close>, the element is a non-array object, so
  \<open>mergeDeep\<close> recurses with \<open>null\<close> as target, and at the element's first
  object-valued property it reads a property of \<open>null\<close>. The call ends in a
  \<open>TypeError\<close> instead of a merged record.
\<close>

theorem mergeDeep_portalTarget_TypeError:
  "mergeDeep defaultBehavior_js [(''portalTarget'', body_element)] = Inl TypeError"
  by (simp add: defaultBehavior_js_def body_element_def get_own_def)

end
